theory Spec2Isabelle
  imports Main "HOL-Library.Sublist"
begin

section \<open>License usage monitor: the parser, the gatherer, the report and the log\<close>

text \<open>
  A shallow embedding of \<^verbatim>\<open>license_monitor.py\<close> and of the table printer of
  \<^verbatim>\<open>fetch_license.py\<close>.

  Text is a \<^typ>\<open>string\<close>, each character one of the code points 0 to 255. The
  character classes of the regular expressions (\<^verbatim>\<open>\s\<close>, \<^verbatim>\<open>\d\<close>,
  \<^verbatim>\<open>\w\<close>), the white space of \<^verbatim>\<open>str.strip\<close> and the line boundaries of
  \<^verbatim>\<open>str.splitlines\<close> are those of Python 3 for \<^verbatim>\<open>str\<close> on these code points.
  The literals of the patterns are ASCII, and under \<^verbatim>\<open>re.I\<close> no code point from 128
  to 255 folds onto an ASCII character, so case folding only maps \<open>A\<close> to \<open>Z\<close> onto
  \<open>a\<close> to \<open>z\<close>. Python integers are \<^typ>\<open>int\<close>; \<^verbatim>\<open>int(s)\<close> is the unbounded
  conversion (the interpreter's optional cap on the number of digits is not part of
  the model). \<^verbatim>\<open>None\<close> is \<^term>\<open>None\<close>.
\<close>

subsection \<open>Exceptions\<close>

datatype exn = ValueError string | IndexError string

subsection \<open>Character classes\<close>

definition code :: "char \<Rightarrow> nat" where
  "code c = of_char c"

definition lower :: "char \<Rightarrow> char" where
  "lower c = (if 65 \<le> code c \<and> code c \<le> 90 then char_of (code c + 32) else c)"

text \<open>
  \<^verbatim>\<open>\s\<close> for a \<^verbatim>\<open>str\<close> pattern, which is also the white space of
  \<^verbatim>\<open>str.strip\<close>: tab, LF, VT, FF, CR, FS, GS, RS, US, space, NEL (133) and the
  no-break space (160).
\<close>

definition is_space :: "char \<Rightarrow> bool" where
  "is_space c = ((9 \<le> code c \<and> code c \<le> 13) \<or> (28 \<le> code c \<and> code c \<le> 32)
     \<or> code c = 133 \<or> code c = 160)"

definition is_digit :: "char \<Rightarrow> bool" where
  "is_digit c = (48 \<le> code c \<and> code c \<le> 57)"

text \<open>
  \<^verbatim>\<open>\w\<close>: the underscore and what \<^verbatim>\<open>str.isalnum\<close> accepts: the ASCII letters
  and digits and, from 128 on, the ordinal indicators (170, 186), the superscript
  digits (178, 179, 185), the micro sign (181), the fractions (188 to 190) and the
  letters 192 to 255 without the two operators 215 and 247.
\<close>

definition is_word :: "char \<Rightarrow> bool" where
  "is_word c = (is_digit c \<or> (65 \<le> code c \<and> code c \<le> 90) \<or> (97 \<le> code c \<and> code c \<le> 122)
     \<or> code c = 95
     \<or> code c = 170 \<or> (178 \<le> code c \<and> code c \<le> 179) \<or> code c = 181
     \<or> (185 \<le> code c \<and> code c \<le> 186) \<or> (188 \<le> code c \<and> code c \<le> 190)
     \<or> (192 \<le> code c \<and> code c \<le> 214) \<or> (216 \<le> code c \<and> code c \<le> 246)
     \<or> 248 \<le> code c)"

subsection \<open>Regular expressions as the patterns use them\<close>

text \<open>
  The four patterns of the program are sequences of literal text, of quantified
  character classes (\<^verbatim>\<open>x?\<close>, \<^verbatim>\<open>x*\<close>, \<^verbatim>\<open>x+\<close>, \<^verbatim>\<open>x*?\<close>), of
  capturing groups around one quantified class, and of \<^verbatim>\<open>\b\<close>. All of them are
  compiled with \<^verbatim>\<open>re.I\<close>, so a literal character matches in either case; the dot
  is only used under \<^verbatim>\<open>re.S\<close>, where it matches every character.
\<close>

datatype cls = Ch char | Space | Digit | Dot

fun accepts :: "cls \<Rightarrow> char \<Rightarrow> bool" where
  "accepts (Ch c) x = (lower x = lower c)"
| "accepts Space x = is_space x"
| "accepts Digit x = is_digit x"
| "accepts Dot x = True"

datatype quant = Opt | Star | Plus | Lazy

datatype tok = Lit string | Rep quant cls | WordB

datatype elem = Plain tok | Group tok

fun tok_of :: "elem \<Rightarrow> tok" where
  "tok_of (Plain t) = t"
| "tok_of (Group t) = t"

fun is_group :: "elem \<Rightarrow> bool" where
  "is_group (Plain t) = False"
| "is_group (Group t) = True"

type_synonym regex = "elem list"

text \<open>
  Reading a literal of the pattern off the front of the text, character by character
  and in either case: the text read and the text left, if the literal is there.
\<close>

fun read_lit :: "string \<Rightarrow> string \<Rightarrow> (string \<times> string) option" where
  "read_lit [] s = Some ([], s)"
| "read_lit (c # w) [] = None"
| "read_lit (c # w) (x # s) =
     (if lower x = lower c
      then (case read_lit w s of Some (m, rest) \<Rightarrow> Some (x # m, rest) | None \<Rightarrow> None)
      else None)"

text \<open>The character before the current position, after a segment has been consumed.\<close>

fun adv :: "char option \<Rightarrow> string \<Rightarrow> char option" where
  "adv prev [] = prev"
| "adv prev (x # xs) = adv (Some x) xs"

text \<open>\<^verbatim>\<open>\b\<close>: exactly one of the two neighbouring positions holds a word character.\<close>

fun word_before :: "char option \<Rightarrow> bool" where
  "word_before None = False"
| "word_before (Some c) = is_word c"

fun word_after :: "string \<Rightarrow> bool" where
  "word_after [] = False"
| "word_after (x # xs) = is_word x"

definition at_boundary :: "char option \<Rightarrow> string \<Rightarrow> bool" where
  "at_boundary prev s = (word_before prev \<noteq> word_after s)"

fun cons1 :: "char \<Rightarrow> string list \<Rightarrow> string list" where
  "cons1 x [] = [[x]]"
| "cons1 x (g # gs) = (x # g) # gs"

text \<open>
  The backtracking matcher, anchored at the current position: \<open>bt p prev s\<close> is the
  first successful way, in the priority order of the engine (a greedy quantifier
  tries the longer repetition first, a lazy one the shorter), of matching the tokens
  \<open>p\<close> against a prefix of \<open>s\<close>, as the list of the segments consumed by each token;
  \<open>prev\<close> is the character before \<open>s\<close> in the whole text.
\<close>

fun bt :: "tok list \<Rightarrow> char option \<Rightarrow> string \<Rightarrow> string list option" where
  "bt [] prev s = Some []"
| "bt (WordB # r) prev s =
     (if at_boundary prev s then map_option ((#) []) (bt r prev s) else None)"
| "bt (Lit w # r) prev s =
     (case read_lit w s of
        Some (m, rest) \<Rightarrow> map_option ((#) m) (bt r (adv prev m) rest)
      | None \<Rightarrow> None)"
| "bt (Rep Opt c # r) prev [] = map_option ((#) []) (bt r prev [])"
| "bt (Rep Opt c # r) prev (x # xs) =
     (if accepts c x
      then (case bt r (Some x) xs of
              Some gs \<Rightarrow> Some ([x] # gs)
            | None \<Rightarrow> map_option ((#) []) (bt r prev (x # xs)))
      else map_option ((#) []) (bt r prev (x # xs)))"
| "bt (Rep Star c # r) prev [] = map_option ((#) []) (bt r prev [])"
| "bt (Rep Star c # r) prev (x # xs) =
     (if accepts c x
      then (case bt (Rep Star c # r) (Some x) xs of
              Some gs \<Rightarrow> Some (cons1 x gs)
            | None \<Rightarrow> map_option ((#) []) (bt r prev (x # xs)))
      else map_option ((#) []) (bt r prev (x # xs)))"
| "bt (Rep Plus c # r) prev [] = None"
| "bt (Rep Plus c # r) prev (x # xs) =
     (if accepts c x then map_option (cons1 x) (bt (Rep Star c # r) (Some x) xs) else None)"
| "bt (Rep Lazy c # r) prev [] = map_option ((#) []) (bt r prev [])"
| "bt (Rep Lazy c # r) prev (x # xs) =
     (case bt r prev (x # xs) of
        Some gs \<Rightarrow> Some ([] # gs)
      | None \<Rightarrow> if accepts c x then map_option (cons1 x) (bt (Rep Lazy c # r) (Some x) xs)
                else None)"

text \<open>\<^verbatim>\<open>pattern.search\<close>: the match at the leftmost position where one exists.\<close>

fun search_from :: "tok list \<Rightarrow> char option \<Rightarrow> string \<Rightarrow> string list option" where
  "search_from p prev [] = bt p prev []"
| "search_from p prev (x # xs) =
     (case bt p prev (x # xs) of
        Some gs \<Rightarrow> Some gs
      | None \<Rightarrow> search_from p (Some x) xs)"

text \<open>The match object, reduced to its groups: the segments of the capturing elements.\<close>

definition groups :: "regex \<Rightarrow> string list \<Rightarrow> string list" where
  "groups p segs = map snd (filter (\<lambda>(e, g). is_group e) (zip p segs))"

definition re_search :: "regex \<Rightarrow> string \<Rightarrow> string list option" where
  "re_search p s = map_option (groups p) (search_from (map tok_of p) None s)"

text \<open>\<^verbatim>\<open>m.group(k)\<close> for \<open>k \<ge> 1\<close>.\<close>

definition group :: "string list \<Rightarrow> nat \<Rightarrow> exn + string" where
  "group m k = (if 1 \<le> k \<and> k \<le> length m then Inr (m ! (k - 1))
                else Inl (IndexError ''no such group''))"

subsection \<open>The patterns\<close>

abbreviation sp1 :: elem where "sp1 \<equiv> Plain (Rep Plus Space)"
abbreviation sp0 :: elem where "sp0 \<equiv> Plain (Rep Star Space)"
abbreviation num :: elem where "num \<equiv> Group (Rep Plus Digit)"
abbreviation lit :: "string \<Rightarrow> elem" where "lit w \<equiv> Plain (Lit w)"

definition pat1 :: regex where
  "pat1 = [lit ''Total'', sp1, lit ''of'', sp1, num, sp1, lit ''licenses'', sp1,
           lit ''issued'', Plain (Rep Opt (Ch (CHR '';''))), sp0,
           lit ''Total'', sp1, lit ''of'', sp1, num, sp1, lit ''licenses'', sp1,
           lit ''in'', sp1, lit ''use'']"

definition pat2 :: regex where
  "pat2 = [lit ''Total'', sp1, lit ''licenses'', sp0, lit '':'', sp0, num,
           Plain (Rep Lazy Dot),
           lit ''In'', sp1, lit ''use'', sp0, lit '':'', sp0, num]"

definition pat3 :: regex where
  "pat3 = [lit ''Issued'', sp0, lit ''='', sp0, num,
           Plain (Rep Lazy Dot),
           lit ''Used'', sp0, lit ''='', sp0, num]"

definition COUNT_PATTERNS :: "regex list" where
  "COUNT_PATTERNS = [pat1, pat2, pat3]"

text \<open>The pattern of the fallback, \<^verbatim>\<open>\bin\s*use\b\<close>.\<close>

definition in_use_pat :: regex where
  "in_use_pat = [Plain WordB, lit ''in'', sp0, lit ''use'', Plain WordB]"

subsection \<open>Library functions on strings\<close>

text \<open>\<^verbatim>\<open>int(s)\<close> on what \<^verbatim>\<open>\d+\<close> captures; any other text is refused.\<close>

definition digit_val :: "char \<Rightarrow> int" where
  "digit_val c = int (code c) - 48"

definition digits_value :: "string \<Rightarrow> int" where
  "digits_value s = foldl (\<lambda>a c. 10 * a + digit_val c) 0 s"

definition py_int :: "string \<Rightarrow> exn + int" where
  "py_int s = (if s \<noteq> [] \<and> list_all is_digit s then Inr (digits_value s)
               else Inl (ValueError ''invalid literal for int()''))"

text \<open>\<^verbatim>\<open>str.strip()\<close>: whitespace removed at both ends.\<close>

definition py_strip :: "string \<Rightarrow> string" where
  "py_strip s = rev (dropWhile is_space (rev (dropWhile is_space s)))"

text \<open>
  \<^verbatim>\<open>str.splitlines()\<close>: lines end at LF, CR, CR LF, VT, FF, FS, GS, RS and NEL
  (133); the terminators are dropped and a final terminator opens no further line.
\<close>

definition is_linebreak :: "char \<Rightarrow> bool" where
  "is_linebreak c = ((10 \<le> code c \<and> code c \<le> 13) \<or> (28 \<le> code c \<and> code c \<le> 30)
     \<or> code c = 133)"

fun split_acc :: "string \<Rightarrow> string \<Rightarrow> string list" where
  "split_acc cur [] = (if cur = [] then [] else [cur])"
| "split_acc cur [c] = (if is_linebreak c then [cur] else [cur @ [c]])"
| "split_acc cur (c # d # cs) =
     (if code c = 13 \<and> code d = 10 then cur # split_acc [] cs
      else if is_linebreak c then cur # split_acc [] (d # cs)
      else split_acc (cur @ [c]) (d # cs))"

definition splitlines :: "string \<Rightarrow> string list" where
  "splitlines s = split_acc [] s"

subsection \<open>The usage parser\<close>

text \<open>The loop over \<^verbatim>\<open>COUNT_PATTERNS\<close>: the first pattern that matches decides.\<close>

fun try_patterns :: "regex list \<Rightarrow> string \<Rightarrow> (exn + int \<times> int) option" where
  "try_patterns [] output = None"
| "try_patterns (pat # pats) output =
     (case re_search pat output of
        Some m \<Rightarrow>
          Some (case group m 1 of
                  Inl e \<Rightarrow> Inl e
                | Inr g1 \<Rightarrow>
                   (case py_int g1 of
                      Inl e \<Rightarrow> Inl e
                    | Inr tot \<Rightarrow>
                       (case group m 2 of
                          Inl e \<Rightarrow> Inl e
                        | Inr g2 \<Rightarrow>
                           (case py_int g2 of
                              Inl e \<Rightarrow> Inl e
                            | Inr usd \<Rightarrow> Inr (tot, usd)))))
      | None \<Rightarrow> try_patterns pats output)"

definition in_use_line :: "string \<Rightarrow> bool" where
  "in_use_line l = (re_search in_use_pat l \<noteq> None)"

definition used_guess :: "string \<Rightarrow> int" where
  "used_guess output = int (length (filter in_use_line (map py_strip (splitlines output))))"

definition parse_usage :: "string \<Rightarrow> exn + int option \<times> int option" where
  "parse_usage output =
     (case try_patterns COUNT_PATTERNS output of
        Some (Inl e) \<Rightarrow> Inl e
      | Some (Inr (tot, usd)) \<Rightarrow> Inr (Some tot, Some usd)
      | None \<Rightarrow>
          if used_guess output > 0 then Inr (None, Some (used_guess output))
          else Inr (None, None))"

subsection \<open>The command runner\<close>

text \<open>
  The world outside the program: the environment variables, the clock (its reading,
  already formatted, at each step of the run) and the outcome of each process that is
  spawned. Spawning either completes with an exit code and the two captured streams,
  or fails with an exception of some class (\<^verbatim>\<open>FileNotFoundError\<close>,
  \<^verbatim>\<open>TimeoutExpired\<close>, ...) and message.
\<close>

datatype outcome = Completed int string string | Failed string string

record world =
  environ :: "string \<rightharpoonup> string"
  clock :: "nat \<Rightarrow> string"
  spawn :: "nat \<Rightarrow> string list \<Rightarrow> int \<Rightarrow> outcome"

text \<open>\<^verbatim>\<open>a or b\<close> on optional strings, and the truth value of the result.\<close>

fun py_or :: "string option \<Rightarrow> string option \<Rightarrow> string option" where
  "py_or None b = b"
| "py_or (Some v) b = (if v \<noteq> [] then Some v else b)"

fun contains :: "string \<Rightarrow> string \<Rightarrow> bool" where
  "contains w [] = (w = [])"
| "contains w (x # xs) = (prefix w (x # xs) \<or> contains w xs)"

text \<open>\<^verbatim>\<open>str.replace(old, new)\<close> for a non-empty \<open>old\<close>.\<close>

fun replace_all :: "string \<Rightarrow> string \<Rightarrow> string \<Rightarrow> string" where
  "replace_all old new [] = []"
| "replace_all old new (x # xs) =
     (if old \<noteq> [] \<and> prefix old (x # xs)
      then new @ replace_all old new (drop (length old - 1) xs)
      else x # replace_all old new xs)"

text \<open>
  \<^verbatim>\<open>shlex.split\<close> (POSIX mode, no comments): words are separated by blanks; single
  and double quotes group, a backslash escapes outside quotes and, before a double
  quote or a backslash, inside double quotes. Text that ends inside a quotation or
  after a backslash is refused with \<^verbatim>\<open>ValueError\<close>.
\<close>

datatype shstate = Between | InWord | InQuote char | Esc "char option"

definition sh_space :: "char \<Rightarrow> bool" where
  "sh_space c = (c = CHR '' '' \<or> code c = 9 \<or> code c = 13 \<or> code c = 10)"

definition sh_quote :: "char \<Rightarrow> bool" where
  "sh_quote c = (c = CHR 0x27 \<or> c = CHR 0x22)"

fun emit :: "string \<Rightarrow> exn + string list \<Rightarrow> exn + string list" where
  "emit t (Inl e) = Inl e"
| "emit t (Inr ts) = Inr (t # ts)"

fun shlex_go :: "shstate \<Rightarrow> string \<Rightarrow> string \<Rightarrow> exn + string list" where
  "shlex_go Between t [] = Inr []"
| "shlex_go Between t (c # cs) =
     (if sh_space c then shlex_go Between [] cs
      else if c = CHR 0x5C then shlex_go (Esc None) [] cs
      else if sh_quote c then shlex_go (InQuote c) [] cs
      else shlex_go InWord [c] cs)"
| "shlex_go InWord t [] = Inr [t]"
| "shlex_go InWord t (c # cs) =
     (if sh_space c then emit t (shlex_go Between [] cs)
      else if sh_quote c then shlex_go (InQuote c) t cs
      else if c = CHR 0x5C then shlex_go (Esc None) t cs
      else shlex_go InWord (t @ [c]) cs)"
| "shlex_go (InQuote q) t [] = Inl (ValueError ''No closing quotation'')"
| "shlex_go (InQuote q) t (c # cs) =
     (if c = q then shlex_go InWord t cs
      else if c = CHR 0x5C \<and> q = CHR 0x22 then shlex_go (Esc (Some q)) t cs
      else shlex_go (InQuote q) (t @ [c]) cs)"
| "shlex_go (Esc ret) t [] = Inl (ValueError ''No escaped character'')"
| "shlex_go (Esc None) t (c # cs) = shlex_go InWord (t @ [c]) cs"
| "shlex_go (Esc (Some q)) t (c # cs) =
     shlex_go (InQuote q) (if c \<noteq> CHR 0x5C \<and> c \<noteq> q then t @ [CHR 0x5C, c] else t @ [c]) cs"

definition shlex_split :: "string \<Rightarrow> exn + string list" where
  "shlex_split s = shlex_go Between [] s"

text \<open>
  Building the command line. The two calls of \<^verbatim>\<open>shlex.split\<close> stand before the
  \<^verbatim>\<open>try\<close>, so what they raise leaves \<^verbatim>\<open>run_ckout\<close>.
\<close>

definition build_cmd :: "world \<Rightarrow> string \<Rightarrow> exn + string list" where
  "build_cmd w feature =
     (case py_or (environ w ''LICENSE_CHECK_CMD'') (environ w ''LICENSE_CMD'') of
        Some cmd_str \<Rightarrow>
          if cmd_str \<noteq> [] then
            (if contains ''{feature}'' cmd_str
             then shlex_split (replace_all ''{feature}'' feature cmd_str)
             else (case shlex_split cmd_str of
                     Inl e \<Rightarrow> Inl e
                   | Inr ws \<Rightarrow> Inr (ws @ [feature])))
          else Inr [''ckout_test'', ''-f'', feature]
      | None \<Rightarrow> Inr [''ckout_test'', ''-f'', feature])"

text \<open>
  \<open>run_ckout w k feature timeout\<close>: the call made at step \<open>k\<close> of the run. Inside
  the \<^verbatim>\<open>try\<close>, every exception of the spawn becomes the triple
  \<^verbatim>\<open>(1, "", "<class>: <message>")\<close>.
\<close>

definition run_ckout :: "world \<Rightarrow> nat \<Rightarrow> string \<Rightarrow> int \<Rightarrow> exn + int \<times> string \<times> string" where
  "run_ckout w k feature timeout =
     (case build_cmd w feature of
        Inl e \<Rightarrow> Inl e
      | Inr cmd \<Rightarrow>
          (case spawn w k cmd timeout of
             Completed returncode out err \<Rightarrow> Inr (returncode, out, err)
           | Failed name msg \<Rightarrow> Inr (1, [], name @ '': '' @ msg)))"

subsection \<open>The snapshot gatherer\<close>

record usage =
  feature :: string
  total_f :: "int option"
  used :: "int option"
  unused :: "int option"
  timestamp :: string
  rc :: int
  stderr :: string
  raw :: string

text \<open>The subtraction of line 193, with its guard.\<close>

fun unused_of :: "int option \<Rightarrow> int option \<Rightarrow> int option" where
  "unused_of (Some t) (Some u) = Some (t - u)"
| "unused_of t u = None"

text \<open>The loop over the features; \<open>k\<close> counts the calls of the runner.\<close>

fun gather_loop :: "world \<Rightarrow> nat \<Rightarrow> string \<Rightarrow> string list \<Rightarrow> exn + usage list" where
  "gather_loop w k now [] = Inr []"
| "gather_loop w k now (feat # feats) =
     (case run_ckout w k feat 30 of
        Inl e \<Rightarrow> Inl e
      | Inr (returncode, out, err) \<Rightarrow>
          (case parse_usage out of
             Inl e \<Rightarrow> Inl e
           | Inr (tot, usd) \<Rightarrow>
               (case gather_loop w (Suc k) now feats of
                  Inl e \<Rightarrow> Inl e
                | Inr results \<Rightarrow>
                    Inr (\<lparr>feature = feat, total_f = tot, used = usd,
                          unused = unused_of tot usd, timestamp = now,
                          rc = returncode, stderr = py_strip err, raw = py_strip out\<rparr>
                         # results))))"

text \<open>The clock is read once, at step \<open>k\<close>; the runner is called from step \<open>k + 1\<close> on.\<close>

definition gather :: "world \<Rightarrow> nat \<Rightarrow> string list \<Rightarrow> exn + usage list" where
  "gather w k features = gather_loop w (Suc k) (clock w k) features"

subsection \<open>The report renderer\<close>

text \<open>\<^verbatim>\<open>str(n)\<close> for an integer.\<close>

fun str_nat :: "nat \<Rightarrow> string" where
  "str_nat n = (if n < 10 then [char_of (48 + n)]
                else str_nat (n div 10) @ [char_of (48 + n mod 10)])"

declare str_nat.simps [simp del]

definition py_str :: "int \<Rightarrow> string" where
  "py_str i = (if i < 0 then CHR ''-'' # str_nat (nat (- i)) else str_nat (nat i))"

text \<open>\<^verbatim>\<open>html.escape\<close> with its default \<^verbatim>\<open>quote=True\<close>.\<close>

definition esc_char :: "char \<Rightarrow> string" where
  \<open>esc_char c =
     (if c = CHR ''&'' then ''&amp;''
      else if c = CHR ''<'' then ''&lt;''
      else if c = CHR ''>'' then ''&gt;''
      else if c = CHR 0x22 then ''&quot;''
      else if c = CHR 0x27 then ''&#x27;''
      else [c])\<close>

definition html_escape :: "string \<Rightarrow> string" where
  "html_escape s = concat (map esc_char s)"

definition nl :: char where
  "nl = CHR 0x0A"

text \<open>A block of text written as its lines, each ended by a newline.\<close>

definition lines_text :: "string list \<Rightarrow> string" where
  "lines_text ls = concat (map (\<lambda>l. l @ [nl]) ls)"

definition head_html :: "string \<Rightarrow> string" where
  \<open>head_html title = lines_text
     [''<!doctype html>'',
      ''<html>'',
      ''<head>'',
      ''<meta charset="utf-8">'',
      ''<meta http-equiv="refresh" content="300">'',
      ''<title>'' @ html_escape title @ ''</title>'',
      ''<style>'',
      ''body { font-family: Arial, sans-serif; margin: 20px; }'',
      ''table { border-collapse: collapse; width: 100%; max-width: 1000px; }'',
      ''th, td { border: 1px solid #ccc; padding: 8px; text-align: left; }'',
      ''th { background: #f7f7f7; }'',
      ''.status-ok { color: #0a7a0a; font-weight: 600; }'',
      ''.status-warn { color: #cc7a00; font-weight: 600; }'',
      ''.status-err { color: #b00020; font-weight: 600; }'',
      ''.small { color: #666; font-size: 12px; }'',
      ''</style>'',
      ''</head>'',
      ''<body>'',
      ''<h2>'' @ html_escape title @ ''</h2>'']\<close>

definition table_header :: string where
  \<open>table_header = lines_text
     [''<table>'',
      ''<thead>'',
      ''<tr>'',
      ''  <th>Feature</th>'',
      ''  <th>Used</th>'',
      ''  <th>Unused</th>'',
      ''  <th>Total</th>'',
      ''  <th>Last Updated</th>'',
      ''  <th>Status</th>'',
      ''</tr>'',
      ''</thead>'',
      ''<tbody>'']\<close>

text \<open>The status of a row in the report: its style class and its text.\<close>

fun html_status :: "int option \<Rightarrow> int option \<Rightarrow> string \<times> string" where
  "html_status None u = (''status-warn'', ''Unknown parse'')"
| "html_status (Some t) None = (''status-warn'', ''Unknown parse'')"
| "html_status (Some t) (Some u) =
     (if u < t then (''status-ok'', ''OK'')
      else if u = t then (''status-err'', ''Fully used'')
      else (''status-warn'', ''Over-reported''))"

fun disp :: "int option \<Rightarrow> string" where
  "disp None = ''?''"
| "disp (Some n) = py_str n"

definition html_row :: "usage \<Rightarrow> string" where
  \<open>html_row r =
     (let feat = html_escape (feature r);
          ts = html_escape (timestamp r);
          used_disp = disp (used r);
          total_disp = disp (total_f r);
          unused_disp = (case unused r of Some n \<Rightarrow> py_str n
                         | None \<Rightarrow> (if total_f r \<noteq> None then ''?'' else ''?''));
          (status_cls, status_text) = html_status (total_f r) (used r)
      in lines_text
           [''<tr>'',
            ''  <td>'' @ feat @ ''</td>'',
            ''  <td>'' @ used_disp @ ''</td>'',
            ''  <td>'' @ unused_disp @ ''</td>'',
            ''  <td>'' @ total_disp @ ''</td>'',
            ''  <td>'' @ ts @ ''</td>'',
            ''  <td class="'' @ status_cls @ ''">'' @ status_text @ ''</td>'',
            ''</tr>''])\<close>

definition table_footer :: string where
  \<open>table_footer = lines_text [''</tbody>'', ''</table>'']\<close>

definition footer :: string where
  \<open>footer = lines_text
     [''<p class="small">Auto-refreshes every 5 minutes. Adjust parsing rules in the script if needed.</p>'',
      ''</body>'',
      ''</html>'']\<close>

definition render_html :: "usage list \<Rightarrow> string \<Rightarrow> string" where
  "render_html rows title =
     head_html title @ table_header @ concat (map html_row rows) @ table_footer @ footer"

subsection \<open>The console table of the on-demand fetcher\<close>

fun table_status :: "int option \<Rightarrow> int option \<Rightarrow> string" where
  "table_status None u = ''Unknown parse''"
| "table_status (Some t) None = ''Unknown parse''"
| "table_status (Some t) (Some u) =
     (if u < t then ''OK'' else if u = t then ''Fully used'' else ''Over-reported'')"

definition display_row :: "usage \<Rightarrow> string list" where
  "display_row r =
     [feature r, disp (used r),
      (case unused r of Some n \<Rightarrow> py_str n
       | None \<Rightarrow> (if total_f r \<noteq> None then ''?'' else ''?'')),
      disp (total_f r), table_status (total_f r) (used r), timestamp r]"

definition headers :: "string list" where
  "headers = [''Feature'', ''Used'', ''Unused'', ''Total'', ''Status'', ''Updated'']"

text \<open>\<^verbatim>\<open>str.ljust\<close> and \<^verbatim>\<open>str.join\<close>.\<close>

definition ljust :: "nat \<Rightarrow> string \<Rightarrow> string" where
  "ljust w s = s @ replicate (w - length s) CHR '' ''"

fun join :: "string \<Rightarrow> string list \<Rightarrow> string" where
  "join sep [] = []"
| "join sep [x] = x"
| "join sep (x # y # ys) = x @ sep @ join sep (y # ys)"

text \<open>The widths of the columns: the longest cell of each, the header included.\<close>

definition widths :: "string list list \<Rightarrow> nat list" where
  "widths display_rows =
     (if display_rows = [] then replicate (length headers) 8
      else map (\<lambda>i. Max (set (map (\<lambda>row. length (row ! i)) (headers # display_rows))))
             [0 ..< length headers])"

definition fmt :: "nat list \<Rightarrow> string list \<Rightarrow> string" where
  "fmt ws row = join ''  '' (map (\<lambda>(cell, w). ljust w cell) (zip row ws))"

text \<open>The lines that \<^verbatim>\<open>print_table\<close> prints.\<close>

definition print_table :: "usage list \<Rightarrow> string list" where
  "print_table rows =
     (let display_rows = map display_row rows;
          ws = widths display_rows
      in fmt ws headers # join ''  '' (map (\<lambda>w. replicate w CHR ''-'') ws)
         # map (fmt ws) display_rows)"

subsection \<open>The history appender\<close>

text \<open>
  The file system, as far as the log needs it: the text of each file that exists.
  \<^verbatim>\<open>csv.writer\<close> in its default dialect: fields joined by commas, a field
  holding a comma, a double quote, CR or LF is put between double quotes with its
  quotes doubled, and each row ends with CR LF. \<^verbatim>\<open>None\<close> is written as the
  empty field.
\<close>

type_synonym files = "string \<rightharpoonup> string"

definition needs_quotes :: "string \<Rightarrow> bool" where
  "needs_quotes s = (\<exists>c \<in> set s. c = CHR '','' \<or> c = CHR 0x22 \<or> code c = 13 \<or> code c = 10)"

definition csv_field :: "string \<Rightarrow> string" where
  "csv_field s =
     (if needs_quotes s
      then [CHR 0x22] @ concat (map (\<lambda>c. if c = CHR 0x22 then [c, c] else [c]) s) @ [CHR 0x22]
      else s)"

definition writerow :: "string list \<Rightarrow> string" where
  "writerow row = join '','' (map csv_field row) @ [CHR 0x0D, CHR 0x0A]"

fun cell :: "int option \<Rightarrow> string" where
  "cell None = []"
| "cell (Some n) = py_str n"

definition csv_header :: "string list" where
  "csv_header = [''timestamp'', ''feature'', ''used'', ''unused'', ''total'']"

definition log_row :: "usage \<Rightarrow> string list" where
  "log_row r = [timestamp r, feature r, cell (used r), cell (unused r), cell (total_f r)]"

definition ensure_csv_header :: "files \<Rightarrow> string \<Rightarrow> files" where
  "ensure_csv_header fs csv_path =
     (if fs csv_path = None then fs(csv_path \<mapsto> writerow csv_header) else fs)"

text \<open>Opening for append creates the file when it is missing.\<close>

definition append_text :: "files \<Rightarrow> string \<Rightarrow> string \<Rightarrow> files" where
  "append_text fs path txt =
     (case fs path of None \<Rightarrow> fs(path \<mapsto> txt) | Some old \<Rightarrow> fs(path \<mapsto> old @ txt))"

definition append_csv :: "files \<Rightarrow> string \<Rightarrow> usage list \<Rightarrow> files" where
  "append_csv fs csv_path rows =
     append_text (ensure_csv_header fs csv_path) csv_path
       (concat (map (\<lambda>r. writerow (log_row r)) rows))"

section \<open>Notions used to state the properties\<close>

text \<open>Case-insensitive equality of a piece of text with a literal.\<close>

definition ci :: "string \<Rightarrow> string \<Rightarrow> bool" where
  "ci s w = (map lower s = map lower w)"

text \<open>The text \<open>s\<close> does not go on with a character of the class \<open>c\<close>.\<close>

fun blocked :: "cls \<Rightarrow> string \<Rightarrow> bool" where
  "blocked c [] = True"
| "blocked c (x # xs) = (\<not> accepts c x)"

text \<open>No match of \<open>p\<close> begins at a position inside \<open>pre\<close>, in the text \<open>pre @ rest\<close>.\<close>

fun no_start :: "tok list \<Rightarrow> char option \<Rightarrow> string \<Rightarrow> string \<Rightarrow> bool" where
  "no_start p prev [] rest = True"
| "no_start p prev (x # xs) rest =
     (bt p prev (x # xs @ rest) = None \<and> no_start p (Some x) xs rest)"

text \<open>
  \<open>fits p segs prev rest\<close>: the segments \<open>segs\<close>, followed by \<open>rest\<close> and preceded
  by \<open>prev\<close>, are one way of reading the tokens \<open>p\<close>: each literal is there in some
  case, each repetition holds characters of its class only, in the number its
  quantifier allows, and each \<^verbatim>\<open>\b\<close> stands at a word boundary.
\<close>

fun fits :: "tok list \<Rightarrow> string list \<Rightarrow> char option \<Rightarrow> string \<Rightarrow> bool" where
  "fits [] [] prev rest = True"
| "fits (WordB # r) (g # gs) prev rest =
     (g = [] \<and> at_boundary prev (concat gs @ rest) \<and> fits r gs prev rest)"
| "fits (Lit w # r) (g # gs) prev rest = (ci g w \<and> fits r gs (adv prev g) rest)"
| "fits (Rep q c # r) (g # gs) prev rest =
     (list_all (accepts c) g \<and> (q = Plus \<longrightarrow> g \<noteq> []) \<and> (q = Opt \<longrightarrow> length g \<le> 1)
      \<and> fits r gs (adv prev g) rest)"
| "fits p gs prev rest = False"

text \<open>
  \<open>first_path p segs prev rest\<close>: a reading that the engine reaches before any
  other: every greedy repetition is as long as the text allows, and no match of the
  tokens after a lazy repetition begins inside the text that the repetition skips.
\<close>

fun first_path :: "tok list \<Rightarrow> string list \<Rightarrow> char option \<Rightarrow> string \<Rightarrow> bool" where
  "first_path [] [] prev rest = True"
| "first_path (WordB # r) (g # gs) prev rest =
     (g = [] \<and> at_boundary prev (concat gs @ rest) \<and> first_path r gs prev rest)"
| "first_path (Lit w # r) (g # gs) prev rest = (ci g w \<and> first_path r gs (adv prev g) rest)"
| "first_path (Rep Lazy c # r) (g # gs) prev rest =
     (list_all (accepts c) g \<and> no_start r prev g (concat gs @ rest)
      \<and> first_path r gs (adv prev g) rest)"
| "first_path (Rep Opt c # r) (g # gs) prev rest =
     (list_all (accepts c) g \<and> length g \<le> 1 \<and> (g \<noteq> [] \<or> blocked c (concat gs @ rest))
      \<and> first_path r gs (adv prev g) rest)"
| "first_path (Rep Star c # r) (g # gs) prev rest =
     (list_all (accepts c) g \<and> blocked c (concat gs @ rest)
      \<and> first_path r gs (adv prev g) rest)"
| "first_path (Rep Plus c # r) (g # gs) prev rest =
     (list_all (accepts c) g \<and> g \<noteq> [] \<and> blocked c (concat gs @ rest)
      \<and> first_path r gs (adv prev g) rest)"
| "first_path p gs prev rest = False"

text \<open>White space, possibly none; white space, at least one character; a number.\<close>

definition spaces :: "string \<Rightarrow> bool" where
  "spaces ws = list_all is_space ws"

definition spaces1 :: "string \<Rightarrow> bool" where
  "spaces1 ws = (ws \<noteq> [] \<and> list_all is_space ws)"

definition number :: "string \<Rightarrow> bool" where
  "number n = (n \<noteq> [] \<and> list_all is_digit n)"

text \<open>
  A line holds the phrase of the fallback: the word \<open>in\<close>, any run of white space
  (none at all included) and the word \<open>use\<close>, in either case, with no word
  character directly before or after.
\<close>

definition in_use_phrase :: "string \<Rightarrow> bool" where
  "in_use_phrase l =
     (\<exists>a I ws U b. l = a @ I @ ws @ U @ b \<and> ci I ''in'' \<and> list_all is_space ws \<and> ci U ''use''
        \<and> \<not> word_before (adv None a) \<and> \<not> word_after b)"

text \<open>
  The status of a record as the specification words it: unknown when either count
  is unknown, then by comparing \<open>used\<close> with \<open>total\<close>.
\<close>

definition status_spec :: "int option \<Rightarrow> int option \<Rightarrow> string" where
  "status_spec tot usd =
     (if tot = None \<or> usd = None then ''Unknown parse''
      else if the usd < the tot then ''OK''
      else if the usd = the tot then ''Fully used''
      else ''Over-reported'')"

text \<open>
  Two concrete worlds. In \<open>printing_world out\<close> no override of the command is set and
  every process exits with code 0 after printing \<open>out\<close>. In \<open>template_world\<close> the
  command is overridden by the template that the documentation of \<^verbatim>\<open>run_ckout\<close>
  gives as its first example, and every process prints a usage line.
\<close>

definition printing_world :: "string \<Rightarrow> world" where
  "printing_world out =
     \<lparr>environ = Map.empty, clock = (\<lambda>k. ''2024-05-01 12:00:00''),
      spawn = (\<lambda>k cmd timeout. Completed 0 out [])\<rparr>"

definition template_world :: world where
  "template_world =
     \<lparr>environ = [''LICENSE_CHECK_CMD'' \<mapsto> ''ckout_test -f {feature}''],
      clock = (\<lambda>k. ''2024-05-01 12:00:00''),
      spawn = (\<lambda>k cmd timeout. Completed 0 ''Issued=10 Used=3'' [])\<rparr>"

text \<open>A feature name with an apostrophe in it.\<close>

definition quoted_feature :: string where
  "quoted_feature = ''dac'' @ [CHR 0x27] @ ''s''"

text \<open>
  For the report: the characters that delimit markup, a record with its two texts
  emptied, and a way of seeing that a word occurs nowhere in a text that is put
  together from pieces: at every position where the first character of the word
  stands, the text differs from the word before either of them ends.
\<close>

definition markup :: "char \<Rightarrow> bool" where
  "markup c = (c = CHR ''<'' \<or> c = CHR ''>'' \<or> c = CHR 0x22 \<or> c = CHR 0x27)"

definition blank :: "usage \<Rightarrow> usage" where
  "blank r = r\<lparr>feature := [], timestamp := []\<rparr>"

fun clash :: "string \<Rightarrow> string \<Rightarrow> bool" where
  "clash (a # w) (b # s) = (a \<noteq> b \<or> clash w s)"
| "clash w s = False"

fun guarded :: "string \<Rightarrow> string \<Rightarrow> bool" where
  "guarded w [] = True"
| "guarded w (c # s) = ((c \<noteq> hd w \<or> clash w (c # s)) \<and> guarded w s)"

section \<open>Properties of the matcher\<close>

lemma adv_append: "adv (adv prev a) b = adv prev (a @ b)"
  by (induction a arbitrary: prev) auto

lemma read_lit_ci: "ci m w \<Longrightarrow> read_lit w (m @ rest) = Some (m, rest)"
proof (induction w arbitrary: m)
  case Nil
  then show ?case by (simp add: ci_def)
next
  case (Cons c w)
  then obtain x m' where m: "m = x # m'" by (cases m) (auto simp: ci_def)
  with Cons.prems have "lower x = lower c" "ci m' w" by (auto simp: ci_def)
  with Cons.IH[of m'] m show ?case by simp
qed

lemma read_lit_sound: "read_lit w s = Some (m, rest) \<Longrightarrow> s = m @ rest \<and> ci m w"
proof (induction w s arbitrary: m rest rule: read_lit.induct)
  case (1 s)
  then show ?case by (simp add: ci_def)
next
  case (2 c w)
  then show ?case by simp
next
  case (3 c w x s)
  then show ?case by (auto simp: ci_def split: if_splits option.splits)
qed

text \<open>Whatever the matcher returns is a reading of the tokens on a prefix of the text.\<close>

lemma bt_sound:
  "bt p prev s = Some segs \<Longrightarrow> \<exists>rest. s = concat segs @ rest \<and> fits p segs prev rest"
proof (induction p prev s arbitrary: segs rule: bt.induct)
  case (1 prev s)
  then show ?case by simp
next
  case (2 r prev s)
  then show ?case by (auto split: if_splits)
next
  case (3 w r prev s)
  then show ?case by (auto split: option.splits dest!: read_lit_sound)
next
  case (4 c r prev)
  then show ?case by auto
next
  case (5 c r prev x xs)
  then show ?case by (auto split: if_splits option.splits)
next
  case (6 c r prev)
  then show ?case by auto
next
  case (7 c r prev x xs)
  show ?case
  proof (cases "accepts c x \<and> bt (Rep Star c # r) (Some x) xs \<noteq> None")
    case True
    then obtain gs where gs: "bt (Rep Star c # r) (Some x) xs = Some gs" and acc: "accepts c x"
      by auto
    with "7.prems" have segs: "segs = cons1 x gs" by simp
    from "7.IH"(1)[OF acc gs] obtain rest
      where r: "xs = concat gs @ rest" "fits (Rep Star c # r) gs (Some x) rest"
      by blast
    then obtain g gs' where g: "gs = g # gs'" by (cases gs) auto
    with r acc segs show ?thesis by auto
  next
    case False
    with "7.prems" "7.IH"(2,3) show ?thesis by (auto split: if_splits option.splits)
  qed
next
  case (8 c r prev)
  then show ?case by simp
next
  case (9 c r prev x xs)
  from "9.prems" obtain gs where acc: "accepts c x"
    and gs: "bt (Rep Star c # r) (Some x) xs = Some gs"
    and segs: "segs = cons1 x gs" by (auto split: if_splits)
  from "9.IH"[OF acc gs] obtain rest
    where r: "xs = concat gs @ rest" "fits (Rep Star c # r) gs (Some x) rest"
    by blast
  then obtain g gs' where g: "gs = g # gs'" by (cases gs) auto
  with r acc segs show ?case by auto
next
  case (10 c r prev)
  then show ?case by auto
next
  case (11 c r prev x xs)
  show ?case
  proof (cases "bt r prev (x # xs)")
    case (Some gs)
    with "11.prems" "11.IH"(1) show ?thesis by auto
  next
    case None
    with "11.prems" obtain gs where acc: "accepts c x"
      and gs: "bt (Rep Lazy c # r) (Some x) xs = Some gs"
      and segs: "segs = cons1 x gs" by (auto split: if_splits)
    from "11.IH"(2)[OF None acc gs] obtain rest
      where r: "xs = concat gs @ rest" "fits (Rep Lazy c # r) gs (Some x) rest"
      by blast
    then obtain g gs' where g: "gs = g # gs'" by (cases gs) auto
    with r acc segs show ?thesis by auto
  qed
qed

lemma bt_opt_skip:
  "blocked c s \<Longrightarrow> bt (Rep Opt c # r) prev s = map_option ((#) []) (bt r prev s)"
  by (cases s) auto

lemma bt_star_run:
  "list_all (accepts c) g \<Longrightarrow> blocked c s \<Longrightarrow> bt r (adv prev g) s = Some gs
   \<Longrightarrow> bt (Rep Star c # r) prev (g @ s) = Some (g # gs)"
proof (induction g arbitrary: prev)
  case Nil
  then show ?case by (cases s) auto
next
  case (Cons y g)
  from Cons.prems have "bt r (adv (Some y) g) s = Some gs" by simp
  with Cons.IH[of "Some y"] Cons.prems show ?case by simp
qed

lemma bt_lazy_run:
  "list_all (accepts c) g \<Longrightarrow> no_start r prev g s \<Longrightarrow> bt r (adv prev g) s = Some gs
   \<Longrightarrow> bt (Rep Lazy c # r) prev (g @ s) = Some (g # gs)"
proof (induction g arbitrary: prev)
  case Nil
  then show ?case by (cases s) auto
next
  case (Cons y g)
  from Cons.prems have "bt r (adv (Some y) g) s = Some gs" by simp
  with Cons.IH[of "Some y"] Cons.prems show ?case by simp
qed

text \<open>The reading that the engine reaches first is the one it returns.\<close>

lemma bt_first_path:
  "first_path p segs prev rest \<Longrightarrow> bt p prev (concat segs @ rest) = Some segs"
proof (induction p segs prev rest rule: first_path.induct)
  case (1 prev rest)
  then show ?case by simp
next
  case (2 r g gs prev rest)
  then show ?case by simp
next
  case (3 w r g gs prev rest)
  then show ?case by (simp add: read_lit_ci)
next
  case (4 c r g gs prev rest)
  then show ?case by (simp add: bt_lazy_run)
next
  case (5 c r g gs prev rest)
  then have *: "bt r (adv prev g) (concat gs @ rest) = Some gs" by simp
  show ?case
  proof (cases g)
    case Nil
    with "5.prems" * show ?thesis by (simp add: bt_opt_skip)
  next
    case (Cons x g')
    with "5.prems" have "g' = []" by simp
    with Cons "5.prems" * show ?thesis by simp
  qed
next
  case (6 c r g gs prev rest)
  then show ?case by (simp add: bt_star_run)
next
  case (7 c r g gs prev rest)
  then have *: "bt r (adv prev g) (concat gs @ rest) = Some gs" by simp
  from "7.prems" obtain x g' where g: "g = x # g'" by (cases g) auto
  with "7.prems" * have "bt (Rep Star c # r) (Some x) (g' @ concat gs @ rest) = Some (g' # gs)"
    by (intro bt_star_run) auto
  with g "7.prems" show ?case by simp
qed auto

lemma search_from_hit: "bt p prev s = Some segs \<Longrightarrow> search_from p prev s = Some segs"
  by (cases s) auto

lemma search_from_skip:
  "no_start p prev pre s \<Longrightarrow> search_from p prev (pre @ s) = search_from p (adv prev pre) s"
  by (induction pre arbitrary: prev) auto

lemma search_from_sound:
  "search_from p prev s = Some segs \<Longrightarrow> \<exists>a b. s = a @ b \<and> bt p (adv prev a) b = Some segs"
proof (induction s arbitrary: prev)
  case Nil
  then show ?case by auto
next
  case (Cons x xs)
  show ?case
  proof (cases "bt p prev (x # xs)")
    case None
    with Cons.prems have "search_from p (Some x) xs = Some segs" by simp
    from Cons.IH[OF this] obtain a b where "xs = a @ b" "bt p (adv (Some x) a) b = Some segs"
      by blast
    then have "x # xs = (x # a) @ b \<and> bt p (adv prev (x # a)) b = Some segs" by simp
    then show ?thesis by blast
  next
    case (Some gs)
    with Cons.prems have "x # xs = [] @ (x # xs) \<and> bt p (adv prev []) (x # xs) = Some segs" by simp
    then show ?thesis by blast
  qed
qed

lemma search_from_complete:
  "bt p (adv prev a) b \<noteq> None \<Longrightarrow> search_from p prev (a @ b) \<noteq> None"
proof (induction a arbitrary: prev)
  case Nil
  then show ?case by (cases b) auto
next
  case (Cons x a)
  then show ?case by (auto split: option.splits)
qed

text \<open>Without \<^verbatim>\<open>\b\<close> among the tokens, the character before the position plays no part.\<close>

lemma bt_prev: "WordB \<notin> set p \<Longrightarrow> bt p prev s = bt p prev' s"
proof (induction p prev s arbitrary: prev' rule: bt.induct)
  case (1 prev s)
  then show ?case by simp
next
  case (2 r prev s)
  then show ?case by simp
next
  case (3 w r prev s)
  show ?case
  proof (cases "read_lit w s")
    case None
    then show ?thesis by simp
  next
    case (Some a)
    then obtain m rest where a: "read_lit w s = Some (m, rest)" by (cases a) auto
    from "3.prems" have "WordB \<notin> set r" by simp
    from "3.IH"[OF a refl this, of "adv prev' m"] a show ?thesis by simp
  qed
next
  case (4 c r prev)
  from "4.IH"[of prev'] "4.prems" show ?case by simp
next
  case (5 c r prev x xs)
  from "5.prems" have r: "WordB \<notin> set r" by simp
  show ?case
  proof (cases "accepts c x")
    case True
    show ?thesis
    proof (cases "bt r (Some x) xs")
      case None
      from "5.IH"(2)[OF True None r, of prev'] True None show ?thesis by simp
    next
      case (Some gs)
      with True show ?thesis by simp
    qed
  next
    case False
    from "5.IH"(3)[OF False r, of prev'] False show ?thesis by simp
  qed
next
  case (6 c r prev)
  from "6.IH"[of prev'] "6.prems" show ?case by simp
next
  case (7 c r prev x xs)
  from "7.prems" have r: "WordB \<notin> set r" by simp
  show ?case
  proof (cases "accepts c x")
    case True
    show ?thesis
    proof (cases "bt (Rep Star c # r) (Some x) xs")
      case None
      from "7.IH"(2)[OF True None r, of prev'] True None show ?thesis by simp
    next
      case (Some gs)
      with True show ?thesis by simp
    qed
  next
    case False
    from "7.IH"(3)[OF False r, of prev'] False show ?thesis by simp
  qed
next
  case (8 c r prev)
  then show ?case by simp
next
  case (9 c r prev x xs)
  then show ?case by simp
next
  case (10 c r prev)
  from "10.IH"[of prev'] "10.prems" show ?case by simp
next
  case (11 c r prev x xs)
  from "11.prems" have r: "WordB \<notin> set r" by simp
  from "11.IH"(1)[OF r, of prev'] show ?case by simp
qed

lemma fits_length: "fits p segs prev rest \<Longrightarrow> length segs = length p"
  by (induction p segs prev rest rule: fits.induct) auto

lemma groups_Cons:
  "groups (e # p) (g # gs) = (if is_group e then g # groups p gs else groups p gs)"
  by (simp add: groups_def)

lemma fits_groups:
  "fits (map tok_of p) segs prev rest \<Longrightarrow> \<forall>e \<in> set p. is_group e \<longrightarrow> tok_of e = Rep Plus Digit
   \<Longrightarrow> length (groups p segs) = length (filter is_group p)
       \<and> list_all (\<lambda>g. g \<noteq> [] \<and> list_all is_digit g) (groups p segs)"
proof (induction p arbitrary: segs prev)
  case Nil
  then show ?case by (simp add: groups_def)
next
  case (Cons e p)
  from Cons.prems(1) obtain g gs where segs: "segs = g # gs" by (cases segs) auto
  from Cons.prems(1) segs obtain prev' where f: "fits (map tok_of p) gs prev' rest"
    by (cases "tok_of e") auto
  from Cons.IH[OF f] Cons.prems(2)
  have ih: "length (groups p gs) = length (filter is_group p)"
    "list_all (\<lambda>g. g \<noteq> [] \<and> list_all is_digit g) (groups p gs)" by auto
  show ?case
  proof (cases "is_group e")
    case True
    with Cons.prems(2) have "tok_of e = Rep Plus Digit" by simp
    with Cons.prems(1) segs have "g \<noteq> [] \<and> list_all is_digit g"
      by (auto simp: list_all_iff)
    with ih True segs show ?thesis by (simp add: groups_Cons)
  next
    case False
    with ih segs show ?thesis by (simp add: groups_Cons)
  qed
qed

lemma count_pattern_groups:
  assumes "p \<in> set COUNT_PATTERNS" and "re_search p s = Some m"
  shows "\<exists>g1 g2. m = [g1, g2] \<and> g1 \<noteq> [] \<and> list_all is_digit g1 \<and> g2 \<noteq> [] \<and> list_all is_digit g2"
proof -
  from assms(2) obtain segs where m: "m = groups p segs"
    and "search_from (map tok_of p) None s = Some segs"
    by (auto simp: re_search_def)
  then obtain a b where "bt (map tok_of p) (adv None a) b = Some segs"
    by (blast dest: search_from_sound)
  then obtain rest where f: "fits (map tok_of p) segs (adv None a) rest"
    by (blast dest: bt_sound)
  from assms(1) have g: "\<forall>e \<in> set p. is_group e \<longrightarrow> tok_of e = Rep Plus Digit"
    and n: "length (filter is_group p) = 2"
    by (auto simp: COUNT_PATTERNS_def pat1_def pat2_def pat3_def)
  from fits_groups[OF f g] n m have "length m = 2" "list_all (\<lambda>g. g \<noteq> [] \<and> list_all is_digit g) m"
    by auto
  then show ?thesis by (cases m; cases "tl m") auto
qed

lemma try_patterns_ok:
  assumes "set ps \<subseteq> set COUNT_PATTERNS"
  shows "try_patterns ps s = None \<or> (\<exists>t u. try_patterns ps s = Some (Inr (t, u)))"
  using assms
proof (induction ps)
  case Nil
  then show ?case by simp
next
  case (Cons p ps)
  show ?case
  proof (cases "re_search p s")
    case None
    with Cons show ?thesis by simp
  next
    case (Some m)
    from Cons.prems have "p \<in> set COUNT_PATTERNS" by simp
    from count_pattern_groups[OF this Some] obtain g1 g2 where m: "m = [g1, g2]"
      and "g1 \<noteq> []" "list_all is_digit g1" "g2 \<noteq> []" "list_all is_digit g2" by blast
    then have "group m 1 = Inr g1" "group m 2 = Inr g2"
      "py_int g1 = Inr (digits_value g1)" "py_int g2 = Inr (digits_value g2)"
      by (simp_all add: group_def py_int_def)
    with Some show ?thesis by simp
  qed
qed

section \<open>The usage parser\<close>

text \<open>
  C10. For every input text, \<open>parse_usage\<close> returns normally, and never with a known
  total next to an unknown used count: the result is (known, known),
  (unknown, known) or (unknown, unknown).
\<close>

theorem parse_usage_shapes:
  "\<exists>t u. parse_usage s = Inr (t, u) \<and> (t \<noteq> None \<longrightarrow> u \<noteq> None)"
  using try_patterns_ok[of COUNT_PATTERNS s]
  by (auto simp: parse_usage_def)

text \<open>Evaluating the parser and the gatherer on an over-reported usage line.\<close>

lemma over_pat1: "re_search pat1 ''Issued=5 Used=7'' = None"
  by code_simp

lemma over_pat2: "re_search pat2 ''Issued=5 Used=7'' = None"
  by code_simp

lemma over_pat3: "re_search pat3 ''Issued=5 Used=7'' = Some [''5'', ''7'']"
  by code_simp

lemma digits_value_5: "digits_value ''5'' = 5" and digits_value_7: "digits_value ''7'' = 7"
  by (simp_all add: digits_value_def digit_val_def code_def)

lemma is_digit_5: "is_digit CHR ''5''" and is_digit_7: "is_digit CHR ''7''"
  by (simp_all add: is_digit_def code_def)

lemma parse_over: "parse_usage ''Issued=5 Used=7'' = Inr (Some 5, Some 7)"
  by (simp add: parse_usage_def COUNT_PATTERNS_def over_pat1 over_pat2 over_pat3 group_def
      py_int_def digits_value_5 digits_value_7 is_digit_5 is_digit_7)

lemma strip_over: "py_strip ''Issued=5 Used=7'' = ''Issued=5 Used=7''"
  by code_simp

lemma strip_nil: "py_strip [] = []"
  by (simp add: py_strip_def)

theorem parse_usage_shapes_witness:
  "\<exists>t u. parse_usage ''Issued=5 Used=7'' = Inr (t, u) \<and> t \<noteq> None \<and> u \<noteq> None"
  using parse_usage_shapes[of "''Issued=5 Used=7''"] parse_over
  by auto

lemma parse_usage_total: "\<exists>t u. parse_usage s = Inr (t, u)"
  using try_patterns_ok[of COUNT_PATTERNS s]
  by (auto simp: parse_usage_def)

lemma digits_value_nonneg_aux:
  "list_all is_digit g \<Longrightarrow> 0 \<le> a \<Longrightarrow> 0 \<le> foldl (\<lambda>a c. 10 * a + digit_val c) a g"
proof (induction g arbitrary: a)
  case Nil
  then show ?case by simp
next
  case (Cons c g)
  from Cons.prems have "0 \<le> digit_val c" by (simp add: is_digit_def digit_val_def)
  with Cons.prems have "0 \<le> 10 * a + digit_val c" by simp
  with Cons.IH[of "10 * a + digit_val c"] Cons.prems show ?case by simp
qed

lemma digits_value_nonneg: "list_all is_digit g \<Longrightarrow> 0 \<le> digits_value g"
  by (simp add: digits_value_def digits_value_nonneg_aux)

lemma try_patterns_nonneg:
  assumes "set ps \<subseteq> set COUNT_PATTERNS" and "try_patterns ps s = Some (Inr (t, u))"
  shows "0 \<le> t \<and> 0 \<le> u"
  using assms
proof (induction ps)
  case Nil
  then show ?case by simp
next
  case (Cons p ps)
  show ?case
  proof (cases "re_search p s")
    case None
    with Cons show ?thesis by simp
  next
    case (Some m)
    from Cons.prems have "p \<in> set COUNT_PATTERNS" by simp
    from count_pattern_groups[OF this Some] obtain g1 g2 where m: "m = [g1, g2]"
      and d: "g1 \<noteq> []" "list_all is_digit g1" "g2 \<noteq> []" "list_all is_digit g2" by blast
    then have "group m 1 = Inr g1" "group m 2 = Inr g2"
      "py_int g1 = Inr (digits_value g1)" "py_int g2 = Inr (digits_value g2)"
      by (simp_all add: group_def py_int_def)
    with Some Cons.prems(2) have "t = digits_value g1" "u = digits_value g2" by simp_all
    with d show ?thesis by (simp add: digits_value_nonneg)
  qed
qed

lemma parse_usage_nonneg:
  assumes "parse_usage s = Inr (t, u)"
  shows "(\<forall>n. t = Some n \<longrightarrow> 0 \<le> n) \<and> (\<forall>n. u = Some n \<longrightarrow> 0 \<le> n)"
proof (cases "try_patterns COUNT_PATTERNS s")
  case None
  with assms show ?thesis by (auto simp: parse_usage_def split: if_splits)
next
  case (Some a)
  show ?thesis
  proof (cases a)
    case (Inl e)
    with Some assms show ?thesis by (simp add: parse_usage_def)
  next
    case (Inr b)
    obtain t' u' where b: "b = (t', u')" by (cases b)
    with Some Inr have "try_patterns COUNT_PATTERNS s = Some (Inr (t', u'))" by simp
    from try_patterns_nonneg[OF subset_refl this] have "0 \<le> t' \<and> 0 \<le> u'" .
    with Some Inr b assms show ?thesis by (auto simp: parse_usage_def)
  qed
qed

lemma gather_loop_counts:
  "gather_loop w k now feats = Inr rs \<Longrightarrow>
     \<forall>r \<in> set rs. \<exists>out. parse_usage out = Inr (total_f r, used r)"
proof (induction feats arbitrary: k rs)
  case Nil
  then show ?case by simp
next
  case (Cons f feats)
  then show ?case
    by (fastforce split: sum.splits prod.splits)
qed

section \<open>The status of a record\<close>

lemma status_agree:
  "snd (html_status t u) = status_spec t u \<and> table_status t u = status_spec t u"
  by (cases t; cases u) (auto simp: status_spec_def)

text \<open>
  C4. The status of a record is a function of its total and used counts alone:
  "Unknown parse" when either is unknown, else "OK" when used is below total, else
  "Fully used" when they are equal, else "Over-reported"; the row of the report and
  the row of the console table both carry exactly this status.
\<close>

theorem status_function_of_counts:
  \<open>(\<exists>cls. html_status (total_f r) (used r) = (cls, status_spec (total_f r) (used r))
        \<and> html_row r = lines_text
             [''<tr>'',
              ''  <td>'' @ html_escape (feature r) @ ''</td>'',
              ''  <td>'' @ disp (used r) @ ''</td>'',
              ''  <td>'' @ disp (unused r) @ ''</td>'',
              ''  <td>'' @ disp (total_f r) @ ''</td>'',
              ''  <td>'' @ html_escape (timestamp r) @ ''</td>'',
              ''  <td class="'' @ cls @ ''">'' @ status_spec (total_f r) (used r) @ ''</td>'',
              ''</tr>''])
   \<and> display_row r ! 4 = status_spec (total_f r) (used r)
   \<and> table_status (total_f r) (used r) = status_spec (total_f r) (used r)\<close>
proof -
  obtain cls st where h: "html_status (total_f r) (used r) = (cls, st)"
    by (cases "html_status (total_f r) (used r)")
  with status_agree[of "total_f r" "used r"] have t: "st = status_spec (total_f r) (used r)"
    by simp
  have d: "(case unused r of Some n \<Rightarrow> py_str n
            | None \<Rightarrow> (if total_f r \<noteq> None then ''?'' else ''?'')) = disp (unused r)"
    by (cases "unused r") auto
  from h t d show ?thesis
    using status_agree[of "total_f r" "used r"]
    by (simp add: html_row_def display_row_def Let_def)
qed

section \<open>The command runner\<close>

lemma build_cmd_default:
  "py_or (environ w ''LICENSE_CHECK_CMD'') (environ w ''LICENSE_CMD'') = None
   \<Longrightarrow> build_cmd w f = Inr [''ckout_test'', ''-f'', f]"
  by (simp add: build_cmd_def)

lemma run_ckout_template_quote:
  "run_ckout template_world k quoted_feature 30 = Inl (ValueError ''No closing quotation'')"
  by (simp add: run_ckout_def build_cmd_def template_world_def quoted_feature_def
      shlex_split_def sh_space_def sh_quote_def code_def)

lemma run_ckout_default:
  assumes "py_or (environ w ''LICENSE_CHECK_CMD'') (environ w ''LICENSE_CMD'') = None"
  shows "run_ckout w k f t =
     (case spawn w k [''ckout_test'', ''-f'', f] t of
        Completed returncode out err \<Rightarrow> Inr (returncode, out, err)
      | Failed name msg \<Rightarrow> Inr (1, [], name @ '': '' @ msg))"
  using assms by (simp add: run_ckout_def build_cmd_def)

lemma run_ckout_failure_triple:
  assumes "build_cmd w f = Inr cmd" and "spawn w k cmd t = Failed name msg"
  shows "\<exists>err. run_ckout w k f t = Inr (1, [], err) \<and> err \<noteq> []"
  using assms by (simp add: run_ckout_def)

text \<open>
  C5. \<open>run_ckout\<close> is meant never to raise: every failure of the spawn becomes the
  triple (1, empty output, message), as the two lemmas above show. But the command
  line is split before the \<^verbatim>\<open>try\<close>: with the override
  \<^verbatim>\<open>ckout_test -f {feature}\<close> and a feature name holding an apostrophe, the
  \<^verbatim>\<open>ValueError\<close> of \<^verbatim>\<open>shlex.split\<close> leaves \<open>run_ckout\<close>.
\<close>

theorem run_ckout_raises:
  "run_ckout template_world 0 quoted_feature 30 = Inl (ValueError ''No closing quotation'')"
  by (rule run_ckout_template_quote)

section \<open>The snapshot gatherer\<close>

lemma gather_loop_props:
  "gather_loop w k now feats = Inr rs \<Longrightarrow>
     map feature rs = feats \<and>
     (\<forall>r \<in> set rs. timestamp r = now \<and> unused r = unused_of (total_f r) (used r))"
proof (induction feats arbitrary: k rs)
  case Nil
  then show ?case by simp
next
  case (Cons f feats)
  then show ?case
    by (auto split: sum.splits prod.splits)
qed

lemma gather_over:
  "gather (printing_world ''Issued=5 Used=7'') 0 [''A''] =
     Inr [\<lparr>feature = ''A'', total_f = Some 5, used = Some 7, unused = Some (- 2),
           timestamp = ''2024-05-01 12:00:00'', rc = 0, stderr = [], raw = ''Issued=5 Used=7''\<rparr>]"
  by (simp add: gather_def run_ckout_def build_cmd_def printing_world_def parse_over strip_over
      strip_nil)

text \<open>
  C3. In every record that \<open>gather\<close> produces, \<open>unused\<close> is \<open>total - used\<close> when
  both counts are known and unknown when either is unknown.
\<close>

theorem gather_unused_derived:
  assumes "gather w k features = Inr rs" and "r \<in> set rs"
  shows "unused r = (case (total_f r, used r) of (Some t, Some u) \<Rightarrow> Some (t - u) | _ \<Rightarrow> None)"
proof -
  from assms gather_loop_props[of w "Suc k" "clock w k" features rs]
  have "unused r = unused_of (total_f r) (used r)" by (simp add: gather_def)
  then show ?thesis by (cases "total_f r"; cases "used r") simp_all
qed

theorem gather_unused_derived_witness:
  "gather (printing_world ''Issued=5 Used=7'') 0 [''A''] =
     Inr [\<lparr>feature = ''A'', total_f = Some 5, used = Some 7, unused = Some (- 2),
           timestamp = ''2024-05-01 12:00:00'', rc = 0, stderr = [], raw = ''Issued=5 Used=7''\<rparr>]
   \<and> Some (- 2) = (case (Some (5::int), Some (7::int)) of (Some t, Some u) \<Rightarrow> Some (t - u) | _ \<Rightarrow> None)"
  using gather_unused_derived[OF gather_over, of "\<lparr>feature = ''A'', total_f = Some 5, used = Some 7, unused = Some (- 2),
           timestamp = ''2024-05-01 12:00:00'', rc = 0, stderr = [], raw = ''Issued=5 Used=7''\<rparr>"]
  by (simp add: gather_over)

text \<open>
  C8, as the claim states it, fails: a feature that reports 7 licenses in use out of
  5 issued gets the unused count \<open>-2\<close>.
\<close>

theorem gather_unused_negative:
  "gather (printing_world ''Issued=5 Used=7'') 0 [''A''] =
     Inr [\<lparr>feature = ''A'', total_f = Some 5, used = Some 7, unused = Some (- 2),
           timestamp = ''2024-05-01 12:00:00'', rc = 0, stderr = [], raw = ''Issued=5 Used=7''\<rparr>]"
  by (rule gather_over)

text \<open>
  C8, amended. In every record that \<open>gather\<close> produces, an \<open>unused\<close> count that is
  present is the difference \<open>total - used\<close> of two known, non-negative counts; it is
  non-negative exactly when \<open>used\<close> does not exceed \<open>total\<close>.
\<close>

theorem gather_unused_sign:
  assumes "gather w k features = Inr rs" and "r \<in> set rs" and "unused r = Some d"
  shows "\<exists>t u. total_f r = Some t \<and> used r = Some u \<and> 0 \<le> t \<and> 0 \<le> u \<and> d = t - u
           \<and> (0 \<le> d \<longleftrightarrow> u \<le> t)"
proof -
  from assms(1,2) gather_loop_props[of w "Suc k" "clock w k" features rs]
  have un: "unused r = unused_of (total_f r) (used r)" by (simp add: gather_def)
  with assms(3) obtain t u where tu: "total_f r = Some t" "used r = Some u" "d = t - u"
    by (cases "total_f r"; cases "used r") auto
  from assms(1,2) gather_loop_counts[of w "Suc k" "clock w k" features rs]
  obtain out where "parse_usage out = Inr (total_f r, used r)" by (auto simp: gather_def)
  from parse_usage_nonneg[OF this] tu have "0 \<le> t" "0 \<le> u" by auto
  with tu show ?thesis by auto
qed

theorem gather_unused_sign_witness:
  "\<exists>t u. Some (5::int) = Some t \<and> Some (7::int) = Some u \<and> 0 \<le> t \<and> 0 \<le> u \<and> (- 2) = t - u
           \<and> (0 \<le> (- 2 :: int) \<longleftrightarrow> u \<le> t)"
  using gather_unused_sign[OF gather_over, of "\<lparr>feature = ''A'', total_f = Some 5, used = Some 7, unused = Some (- 2),
           timestamp = ''2024-05-01 12:00:00'', rc = 0, stderr = [], raw = ''Issued=5 Used=7''\<rparr>" "- 2"]
  by simp

lemma gather_in_order:
  assumes "gather w k features = Inr rs"
  shows "map feature rs = features \<and> (\<forall>r \<in> set rs. timestamp r = clock w k)"
  using assms gather_loop_props[of w "Suc k" "clock w k" features rs]
  by (simp add: gather_def)

lemma gather_loop_default:
  assumes "py_or (environ w ''LICENSE_CHECK_CMD'') (environ w ''LICENSE_CMD'') = None"
  shows "\<exists>rs. gather_loop w k now feats = Inr rs"
proof (induction feats arbitrary: k)
  case Nil
  then show ?case by simp
next
  case (Cons f feats)
  from run_ckout_default[OF assms, of k f 30]
  obtain c out err where r: "run_ckout w k f 30 = Inr (c, out, err)"
    by (cases "spawn w k [''ckout_test'', ''-f'', f] 30") auto
  obtain t u where p: "parse_usage out = Inr (t, u)" using parse_usage_total by blast
  from Cons[of "Suc k"] obtain rs where "gather_loop w (Suc k) now feats = Inr rs" by blast
  with r p show ?case by simp
qed

text \<open>
  C6. Whenever \<open>gather\<close> returns, it returns one record per feature name, in the
  order of the names, all with the clock reading taken before the loop (lemma
  \<open>gather_in_order\<close>); without an override of the command the runner and, with the
  unbounded \<^verbatim>\<open>int\<close> of this model, the parser do not raise (lemma
  \<open>gather_loop_default\<close>). With the override of the documentation and a
  feature name holding an apostrophe it returns nothing: the \<^verbatim>\<open>ValueError\<close>
  of the command runner passes through it.
\<close>

theorem gather_raises:
  "gather template_world 0 [quoted_feature] = Inl (ValueError ''No closing quotation'')"
  by (simp add: gather_def run_ckout_template_quote)

section \<open>The history appender\<close>

lemma str_nat_digits: "list_all is_digit (str_nat n)"
proof (induction n rule: str_nat.induct)
  case (1 n)
  have d: "\<And>k::nat. k < 10 \<Longrightarrow> is_digit (char_of (48 + k))"
    by (simp add: is_digit_def code_def)
  show ?case
  proof (cases "n < 10")
    case True
    with d[of n] show ?thesis by (subst str_nat.simps) simp
  next
    case False
    with "1.IH" d[of "n mod 10"] show ?thesis by (subst str_nat.simps) simp
  qed
qed

lemma py_str_chars: "c \<in> set (py_str n) \<Longrightarrow> is_digit c \<or> c = CHR ''-''"
  using str_nat_digits[of "nat n"] str_nat_digits[of "nat (- n)"]
  by (auto simp: py_str_def list_all_iff split: if_splits)

lemma cell_plain: "csv_field (cell x) = cell x"
proof (cases x)
  case None
  then show ?thesis by (simp add: csv_field_def needs_quotes_def)
next
  case (Some n)
  have "\<not> needs_quotes (py_str n)"
    by (auto simp: needs_quotes_def is_digit_def code_def dest!: py_str_chars)
  with Some show ?thesis by (simp add: csv_field_def)
qed

lemma writerow_log_row:
  "writerow (log_row r) =
     csv_field (timestamp r) @ '','' @ csv_field (feature r) @ '','' @ cell (used r) @ '',''
     @ cell (unused r) @ '','' @ cell (total_f r) @ [CHR 0x0D, CHR 0x0A]"
  by (simp add: writerow_def log_row_def cell_plain)

lemma append_csv_existing:
  "fs p = Some old \<Longrightarrow>
   append_csv fs p rows = fs(p \<mapsto> old @ concat (map (\<lambda>r. writerow (log_row r)) rows))"
  by (simp add: append_csv_def ensure_csv_header_def append_text_def)

lemma append_csv_fresh:
  "fs p = None \<Longrightarrow>
   append_csv fs p rows =
     fs(p \<mapsto> writerow csv_header @ concat (map (\<lambda>r. writerow (log_row r)) rows))"
  by (simp add: append_csv_def ensure_csv_header_def append_text_def)

text \<open>
  C7. Appending to a path where no log exists writes the header row
  \<open>timestamp,feature,used,unused,total\<close> once and then one row per record, in
  the order of the records, an unknown count as the empty field; a second append to
  the same path adds its rows after the text that is there and changes no other file.
\<close>

theorem append_csv_log:
  assumes "fs p = None"
  shows "append_csv fs p rows p =
           Some (writerow csv_header @ concat (map (\<lambda>r. writerow (log_row r)) rows))
       \<and> append_csv (append_csv fs p rows) p rows' p =
           Some (writerow csv_header @ concat (map (\<lambda>r. writerow (log_row r)) rows)
                 @ concat (map (\<lambda>r. writerow (log_row r)) rows'))
       \<and> (\<forall>q. q \<noteq> p \<longrightarrow> append_csv (append_csv fs p rows) p rows' q = fs q)
       \<and> writerow csv_header = ''timestamp,feature,used,unused,total'' @ [CHR 0x0D, CHR 0x0A]
       \<and> (\<forall>r. writerow (log_row r) =
             csv_field (timestamp r) @ '','' @ csv_field (feature r) @ '','' @ cell (used r)
             @ '','' @ cell (unused r) @ '','' @ cell (total_f r) @ [CHR 0x0D, CHR 0x0A])
       \<and> cell None = []"
proof -
  let ?one = "writerow csv_header @ concat (map (\<lambda>r. writerow (log_row r)) rows)"
  have a: "append_csv fs p rows = fs(p \<mapsto> ?one)" using assms by (rule append_csv_fresh)
  then have b: "append_csv fs p rows p = Some ?one" by simp
  have c: "append_csv (append_csv fs p rows) p rows' =
             (append_csv fs p rows)(p \<mapsto> ?one @ concat (map (\<lambda>r. writerow (log_row r)) rows'))"
    using b by (rule append_csv_existing)
  have h: "writerow csv_header = ''timestamp,feature,used,unused,total'' @ [CHR 0x0D, CHR 0x0A]"
    by (simp add: writerow_def csv_header_def csv_field_def needs_quotes_def code_def)
  from a b c h show ?thesis by (simp add: writerow_log_row)
qed

theorem append_csv_log_witness:
  "append_csv Map.empty ''license_usage.csv''
     [\<lparr>feature = ''A'', total_f = None, used = Some 1, unused = None,
       timestamp = ''2024-05-01 12:00:00'', rc = 0, stderr = [], raw = ''in use''\<rparr>]
     ''license_usage.csv''
   = Some (''timestamp,feature,used,unused,total'' @ [CHR 0x0D, CHR 0x0A]
           @ ''2024-05-01 12:00:00,A,1,,'' @ [CHR 0x0D, CHR 0x0A])"
proof -
  have e: "(Map.empty :: files) ''license_usage.csv'' = None" by simp
  have f: "csv_field ''2024-05-01 12:00:00'' = ''2024-05-01 12:00:00''" "csv_field ''A'' = ''A''"
    by (simp_all add: csv_field_def needs_quotes_def code_def)
  have g: "py_str 1 = ''1''" by code_simp
  from append_csv_log[where fs = Map.empty and p = "''license_usage.csv''" and rows' = "[]"
      and rows = "[\<lparr>feature = ''A'', total_f = None, used = Some 1, unused = None,
       timestamp = ''2024-05-01 12:00:00'', rc = 0, stderr = [], raw = ''in use''\<rparr>]"] e f g
  show ?thesis by simp
qed

section \<open>The report renderer\<close>

lemma markup_esc_char: "filter markup (esc_char c) = []"
  by (simp add: esc_char_def markup_def)

lemma markup_html_escape: "filter markup (html_escape s) = []"
  by (induction s) (simp_all add: html_escape_def markup_esc_char)

lemma clash_append: "clash w s \<Longrightarrow> clash w (s @ t)"
  by (induction w s rule: clash.induct) auto

lemma guarded_append: "guarded w a \<Longrightarrow> guarded w b \<Longrightarrow> guarded w (a @ b)"
proof (induction a)
  case Nil
  then show ?case by simp
next
  case (Cons c a)
  then show ?case using clash_append[of w "c # a" b] by auto
qed

lemma guarded_concat: "list_all (guarded w) xs \<Longrightarrow> guarded w (concat xs)"
  by (induction xs) (simp_all add: guarded_append)

lemma guarded_no_head: "hd w \<notin> set s \<Longrightarrow> guarded w s"
  by (induction s) auto

lemma prefix_no_clash: "prefix w s \<Longrightarrow> \<not> clash w s"
  by (induction w s rule: clash.induct) auto

lemma guarded_contains: "w \<noteq> [] \<Longrightarrow> guarded w s \<Longrightarrow> \<not> contains w s"
proof (induction s)
  case Nil
  then show ?case by simp
next
  case (Cons c s)
  have "\<not> prefix w (c # s)"
  proof
    assume p: "prefix w (c # s)"
    with Cons.prems(1) have "c = hd w" by (cases w) auto
    with Cons.prems(2) have "clash w (c # s)" by simp
    with prefix_no_clash[OF p] show False by simp
  qed
  with Cons show ?case by simp
qed

lemma esc_no_lt: "CHR ''<'' \<notin> set (html_escape s)"
  by (induction s) (auto simp: html_escape_def esc_char_def)

lemma guarded_escape: "guarded ''<script>'' (html_escape s)"
  by (rule guarded_no_head) (simp add: esc_no_lt)

lemma guarded_py_str: "guarded ''<script>'' (py_str n)"
  by (rule guarded_no_head) (auto simp: is_digit_def code_def dest!: py_str_chars)

lemma guarded_disp: "guarded ''<script>'' (disp x)"
  by (cases x) (simp_all add: guarded_py_str)

lemma guarded_lines:
  assumes "list_all (guarded w) ls" and "guarded w [nl]"
  shows "guarded w (lines_text ls)"
proof -
  from assms have "list_all (guarded w) (map (\<lambda>l. l @ [nl]) ls)"
    by (induction ls) (simp_all add: guarded_append)
  then show ?thesis unfolding lines_text_def by (rule guarded_concat)
qed

lemma guarded_nl: "guarded ''<script>'' [nl]"
  by (simp add: nl_def)

lemma guarded_head: "guarded ''<script>'' (head_html title)"
  unfolding head_html_def
  by (rule guarded_lines) (simp_all add: nl_def guarded_append guarded_escape)


lemma guarded_table_header: "guarded ''<script>'' table_header"
  unfolding table_header_def
  by (rule guarded_lines) (simp_all add: nl_def)

lemma guarded_footers: "guarded ''<script>'' table_footer" "guarded ''<script>'' footer"
  unfolding table_footer_def footer_def
  by (rule guarded_lines; simp add: nl_def)+

lemma guarded_status: "guarded ''<script>'' (fst (html_status t u)) \<and> guarded ''<script>'' (snd (html_status t u))"
  by (cases t; cases u) simp_all

lemma guarded_row: "guarded ''<script>'' (html_row r)"
proof -
  obtain cls st where h: "html_status (total_f r) (used r) = (cls, st)"
    by (cases "html_status (total_f r) (used r)")
  with guarded_status[of "total_f r" "used r"] have g: "guarded ''<script>'' cls" "guarded ''<script>'' st"
    by simp_all
  have u: "guarded ''<script>'' (case unused r of Some n \<Rightarrow> py_str n
            | None \<Rightarrow> (if total_f r \<noteq> None then ''?'' else ''?''))"
    by (cases "unused r") (simp_all add: guarded_py_str)
  show ?thesis
    unfolding html_row_def Let_def h prod.case
    by (rule guarded_lines) (simp_all add: nl_def guarded_append guarded_escape guarded_disp g u)
qed

lemma guarded_render: "guarded ''<script>'' (render_html rows title)"
proof -
  have "list_all (guarded ''<script>'') (map html_row rows)"
    by (simp add: list_all_iff guarded_row)
  then have "guarded ''<script>'' (concat (map html_row rows))" by (rule guarded_concat)
  then show ?thesis
    unfolding render_html_def
    by (intro guarded_append guarded_head guarded_table_header guarded_footers)
qed

lemma markup_lines:
  "filter markup (lines_text ls) = concat (map (\<lambda>l. filter markup l) ls)"
  by (induction ls) (simp_all add: lines_text_def markup_def nl_def)

lemma html_escape_nil: "html_escape [] = []"
  by (simp add: html_escape_def)

lemma markup_head: "filter markup (head_html title) = filter markup (head_html [])"
  unfolding head_html_def markup_lines
  by (simp only: list.map filter_append markup_html_escape html_escape_nil append_Nil append_Nil2)

lemma markup_row: "filter markup (html_row r) = filter markup (html_row (blank r))"
proof -
  have b: "feature (blank r) = []" "timestamp (blank r) = []" "used (blank r) = used r"
    "unused (blank r) = unused r" "total_f (blank r) = total_f r"
    by (simp_all add: blank_def)
  show ?thesis
    unfolding html_row_def Let_def split_def markup_lines b
    by (simp only: list.map filter_append markup_html_escape html_escape_nil append_Nil append_Nil2)
qed

lemma markup_rows:
  "filter markup (concat (map html_row rows)) = filter markup (concat (map html_row (map blank rows)))"
proof (induction rows)
  case Nil
  then show ?case by simp
next
  case (Cons r rows)
  have "filter markup (html_row r) = filter markup (html_row (blank r))" by (rule markup_row)
  with Cons show ?case by simp
qed

lemma html_row_explicit:
  \<open>html_row r = lines_text
     [''<tr>'',
      ''  <td>'' @ html_escape (feature r) @ ''</td>'',
      ''  <td>'' @ disp (used r) @ ''</td>'',
      ''  <td>'' @ disp (unused r) @ ''</td>'',
      ''  <td>'' @ disp (total_f r) @ ''</td>'',
      ''  <td>'' @ html_escape (timestamp r) @ ''</td>'',
      ''  <td class="'' @ fst (html_status (total_f r) (used r)) @ ''">''
        @ snd (html_status (total_f r) (used r)) @ ''</td>'',
      ''</tr>'']\<close>
  by (cases "unused r") (simp_all add: html_row_def Let_def split_def)

lemma html_escape_Cons: "html_escape (c # s) = esc_char c @ html_escape s"
  by (simp add: html_escape_def)

text \<open>
  C9. \<open>render_html\<close> escapes what it embeds. \<open>html_escape\<close> replaces, character by
  character, \<open>&\<close>, \<open><\<close>, \<open>>\<close>, the double quote and the apostrophe by their entities
  and keeps every other character. The document is the fixed markup below, in which
  the title stands twice and the feature name and the timestamp of every record once,
  each after \<open>html_escape\<close>; the three counts are printed numbers or \<open>?\<close>. So the
  sequence of the characters \<open><\<close>, \<open>>\<close>, double quote and apostrophe in the document
  is the one of the document with the title, the feature names and the timestamps
  emptied; and whatever the records and the title are, the document does not contain
  \<open><script>\<close>: a feature of that name appears as \<open>&lt;script&gt;\<close>.
\<close>

theorem render_html_escapes:
  \<open>html_escape [] = []
   \<and> html_escape (c # s) =
       (if c = CHR ''&'' then ''&amp;''
        else if c = CHR ''<'' then ''&lt;''
        else if c = CHR ''>'' then ''&gt;''
        else if c = CHR 0x22 then ''&quot;''
        else if c = CHR 0x27 then ''&#x27;''
        else [c]) @ html_escape s
   \<and> render_html rows title =
       lines_text
         [''<!doctype html>'',
          ''<html>'',
          ''<head>'',
          ''<meta charset="utf-8">'',
          ''<meta http-equiv="refresh" content="300">'',
          ''<title>'' @ html_escape title @ ''</title>'',
          ''<style>'',
          ''body { font-family: Arial, sans-serif; margin: 20px; }'',
          ''table { border-collapse: collapse; width: 100%; max-width: 1000px; }'',
          ''th, td { border: 1px solid #ccc; padding: 8px; text-align: left; }'',
          ''th { background: #f7f7f7; }'',
          ''.status-ok { color: #0a7a0a; font-weight: 600; }'',
          ''.status-warn { color: #cc7a00; font-weight: 600; }'',
          ''.status-err { color: #b00020; font-weight: 600; }'',
          ''.small { color: #666; font-size: 12px; }'',
          ''</style>'',
          ''</head>'',
          ''<body>'',
          ''<h2>'' @ html_escape title @ ''</h2>'']
       @ lines_text
         [''<table>'',
          ''<thead>'',
          ''<tr>'',
          ''  <th>Feature</th>'',
          ''  <th>Used</th>'',
          ''  <th>Unused</th>'',
          ''  <th>Total</th>'',
          ''  <th>Last Updated</th>'',
          ''  <th>Status</th>'',
          ''</tr>'',
          ''</thead>'',
          ''<tbody>'']
       @ concat (map (\<lambda>r. lines_text
           [''<tr>'',
            ''  <td>'' @ html_escape (feature r) @ ''</td>'',
            ''  <td>'' @ disp (used r) @ ''</td>'',
            ''  <td>'' @ disp (unused r) @ ''</td>'',
            ''  <td>'' @ disp (total_f r) @ ''</td>'',
            ''  <td>'' @ html_escape (timestamp r) @ ''</td>'',
            ''  <td class="'' @ fst (html_status (total_f r) (used r)) @ ''">''
              @ snd (html_status (total_f r) (used r)) @ ''</td>'',
            ''</tr>'']) rows)
       @ lines_text [''</tbody>'', ''</table>'']
       @ lines_text
         [''<p class="small">Auto-refreshes every 5 minutes. Adjust parsing rules in the script if needed.</p>'',
          ''</body>'',
          ''</html>'']
   \<and> filter markup (html_escape s) = []
   \<and> filter markup (render_html rows title) = filter markup (render_html (map blank rows) [])
   \<and> \<not> contains ''<script>'' (render_html rows title)
   \<and> html_escape ''<script>'' = ''&lt;script&gt;''\<close>
proof -
  have e: \<open>html_escape (c # s) =
       (if c = CHR ''&'' then ''&amp;''
        else if c = CHR ''<'' then ''&lt;''
        else if c = CHR ''>'' then ''&gt;''
        else if c = CHR 0x22 then ''&quot;''
        else if c = CHR 0x27 then ''&#x27;''
        else [c]) @ html_escape s\<close>
    unfolding html_escape_Cons esc_char_def by (rule refl)
  have m: "map html_row rows = map (\<lambda>r. lines_text
           [''<tr>'',
            ''  <td>'' @ html_escape (feature r) @ ''</td>'',
            ''  <td>'' @ disp (used r) @ ''</td>'',
            ''  <td>'' @ disp (unused r) @ ''</td>'',
            ''  <td>'' @ disp (total_f r) @ ''</td>'',
            ''  <td>'' @ html_escape (timestamp r) @ ''</td>'',
            ''  <td class=\"'' @ fst (html_status (total_f r) (used r)) @ ''\">''
              @ snd (html_status (total_f r) (used r)) @ ''</td>'',
            ''</tr>'']) rows"
    by (rule map_cong[OF refl]) (rule html_row_explicit)
  have d: \<open>render_html rows title =
       lines_text
         [''<!doctype html>'',
          ''<html>'',
          ''<head>'',
          ''<meta charset="utf-8">'',
          ''<meta http-equiv="refresh" content="300">'',
          ''<title>'' @ html_escape title @ ''</title>'',
          ''<style>'',
          ''body { font-family: Arial, sans-serif; margin: 20px; }'',
          ''table { border-collapse: collapse; width: 100%; max-width: 1000px; }'',
          ''th, td { border: 1px solid #ccc; padding: 8px; text-align: left; }'',
          ''th { background: #f7f7f7; }'',
          ''.status-ok { color: #0a7a0a; font-weight: 600; }'',
          ''.status-warn { color: #cc7a00; font-weight: 600; }'',
          ''.status-err { color: #b00020; font-weight: 600; }'',
          ''.small { color: #666; font-size: 12px; }'',
          ''</style>'',
          ''</head>'',
          ''<body>'',
          ''<h2>'' @ html_escape title @ ''</h2>'']
       @ lines_text
         [''<table>'',
          ''<thead>'',
          ''<tr>'',
          ''  <th>Feature</th>'',
          ''  <th>Used</th>'',
          ''  <th>Unused</th>'',
          ''  <th>Total</th>'',
          ''  <th>Last Updated</th>'',
          ''  <th>Status</th>'',
          ''</tr>'',
          ''</thead>'',
          ''<tbody>'']
       @ concat (map (\<lambda>r. lines_text
           [''<tr>'',
            ''  <td>'' @ html_escape (feature r) @ ''</td>'',
            ''  <td>'' @ disp (used r) @ ''</td>'',
            ''  <td>'' @ disp (unused r) @ ''</td>'',
            ''  <td>'' @ disp (total_f r) @ ''</td>'',
            ''  <td>'' @ html_escape (timestamp r) @ ''</td>'',
            ''  <td class="'' @ fst (html_status (total_f r) (used r)) @ ''">''
              @ snd (html_status (total_f r) (used r)) @ ''</td>'',
            ''</tr>'']) rows)
       @ lines_text [''</tbody>'', ''</table>'']
       @ lines_text
         [''<p class="small">Auto-refreshes every 5 minutes. Adjust parsing rules in the script if needed.</p>'',
          ''</body>'',
          ''</html>'']\<close>
    unfolding render_html_def head_html_def table_header_def table_footer_def footer_def m
    by (rule refl)
  have a: "filter markup (render_html rows title) = filter markup (render_html (map blank rows) [])"
    using markup_rows[of rows] markup_head[of title] by (simp add: render_html_def)
  have b: "\<not> contains ''<script>'' (render_html rows title)"
    by (rule guarded_contains) (simp_all add: guarded_render)
  have c: "html_escape ''<script>'' = ''&lt;script&gt;''"
    by (simp add: html_escape_def esc_char_def)
  have n: "html_escape [] = []" by (rule html_escape_nil)
  show ?thesis
    by (intro conjI) (rule n e d markup_html_escape a b c)+
qed

section \<open>The fallback of the parser\<close>

lemma code_lower: "code (lower x) = (if 65 \<le> code x \<and> code x \<le> 90 then code x + 32 else code x)"
  by (simp add: lower_def code_def)

lemma is_space_lower: "is_space (lower x) = is_space x"
  by (auto simp: is_space_def code_lower)

lemma is_digit_lower: "is_digit (lower x) = is_digit x"
  by (auto simp: is_digit_def code_lower)

lemma is_word_lower: "is_word (lower x) = is_word x"
  by (auto simp: is_word_def is_digit_def code_lower)

lemma space_not_word: "is_space x \<Longrightarrow> \<not> is_word x"
  by (auto simp: is_space_def is_word_def is_digit_def)

lemma accepts_Space: "accepts Space = is_space"
  by (rule ext) simp

lemma accepts_Digit: "accepts Digit = is_digit"
  by (rule ext) simp

lemma ci_Cons: "ci g (c # w) = (\<exists>x g'. g = x # g' \<and> lower x = lower c \<and> ci g' w)"
  by (cases g) (auto simp: ci_def)

lemma ci_Nil: "ci g [] = (g = [])"
  by (simp add: ci_def)

lemma adv_nonempty: "a \<noteq> [] \<Longrightarrow> adv p a = adv q a"
  by (cases a) auto

lemma adv_last: "a \<noteq> [] \<Longrightarrow> adv p a = Some (last a)"
  by (induction a arbitrary: p) auto

lemma word_i: "lower x = lower CHR ''i'' \<Longrightarrow> is_word x"
  and word_e: "lower x = lower CHR ''e'' \<Longrightarrow> is_word x"
  and nonspace_u: "lower x = lower CHR ''u'' \<Longrightarrow> \<not> is_space x"
  and nonspace_e: "lower x = lower CHR ''e'' \<Longrightarrow> \<not> is_space x"
  and nonspace_i: "lower x = lower CHR ''i'' \<Longrightarrow> \<not> is_space x"
proof -
  have w: "is_word (lower CHR ''i'')" "is_word (lower CHR ''e'')"
    by (simp_all add: is_word_def code_lower) (simp_all add: code_def)
  have s: "\<not> is_space (lower CHR ''u'')" "\<not> is_space (lower CHR ''e'')" "\<not> is_space (lower CHR ''i'')"
    by (simp_all add: is_space_def code_lower) (simp_all add: code_def)
  show "lower x = lower CHR ''i'' \<Longrightarrow> is_word x" using w(1) is_word_lower[of x] by simp
  show "lower x = lower CHR ''e'' \<Longrightarrow> is_word x" using w(2) is_word_lower[of x] by simp
  show "lower x = lower CHR ''u'' \<Longrightarrow> \<not> is_space x" using s(1) is_space_lower[of x] by simp
  show "lower x = lower CHR ''e'' \<Longrightarrow> \<not> is_space x" using s(2) is_space_lower[of x] by simp
  show "lower x = lower CHR ''i'' \<Longrightarrow> \<not> is_space x" using s(3) is_space_lower[of x] by simp
qed

lemma in_use_toks:
  "map tok_of in_use_pat = [WordB, Lit ''in'', Rep Star Space, Lit ''use'', WordB]"
  by (simp add: in_use_pat_def)

lemma phrase_matches:
  assumes "ci I ''in''" "list_all is_space ws" "ci U ''use''"
    and "\<not> word_before prev" "\<not> word_after b"
  shows "bt (map tok_of in_use_pat) prev (I @ ws @ U @ b) = Some [[], I, ws, U, []]"
proof -
  from assms(1) obtain x y where I: "I = [x, y]" "lower x = lower CHR ''i''"
    by (auto simp: ci_Cons ci_Nil)
  from assms(3) obtain u v e where U: "U = [u, v, e]" "lower u = lower CHR ''u''"
    "lower e = lower CHR ''e''"
    by (auto simp: ci_Cons ci_Nil)
  have "first_path (map tok_of in_use_pat) [[], I, ws, U, []] prev b"
    using assms I U word_i[of x] word_e[of e] nonspace_u[of u]
    by (simp add: in_use_toks at_boundary_def accepts_Space)
  from bt_first_path[OF this] show ?thesis by simp
qed

lemma in_use_line_iff: "in_use_line l = in_use_phrase l"
proof
  assume "in_use_line l"
  then obtain segs where "search_from (map tok_of in_use_pat) None l = Some segs"
    by (auto simp: in_use_line_def re_search_def)
  then obtain a b' where l: "l = a @ b'" and "bt (map tok_of in_use_pat) (adv None a) b' = Some segs"
    by (blast dest: search_from_sound)
  then obtain rest where b': "b' = concat segs @ rest"
    and f: "fits (map tok_of in_use_pat) segs (adv None a) rest"
    by (blast dest: bt_sound)
  from fits_length[OF f] have "length segs = 5" by (simp add: in_use_toks)
  then obtain g0 I ws U g4 where segs: "segs = [g0, I, ws, U, g4]"
    by (auto simp: eval_nat_numeral length_Suc_conv)
  from f segs have c: "g0 = []" "g4 = []" "ci I ''in''" "list_all is_space ws" "ci U ''use''"
    and b1: "at_boundary (adv None a) (I @ ws @ U @ rest)"
    and b2: "at_boundary (adv (adv (adv (adv None a) I) ws) U) rest"
    by (auto simp: in_use_toks accepts_Space)
  from c(3) obtain x y where I: "I = [x, y]" "lower x = lower CHR ''i''"
    by (auto simp: ci_Cons ci_Nil)
  from c(5) obtain u v e where U: "U = [u, v, e]" "lower e = lower CHR ''e''"
    by (auto simp: ci_Cons ci_Nil)
  from b1 I word_i[of x] have w1: "\<not> word_before (adv None a)" by (simp add: at_boundary_def)
  from b2 U word_e[of e] have w2: "\<not> word_after rest" by (simp add: at_boundary_def)
  from l b' segs c have "l = a @ I @ ws @ U @ rest" by simp
  with c w1 w2 show "in_use_phrase l" unfolding in_use_phrase_def by blast
next
  assume "in_use_phrase l"
  then obtain a I ws U b where l: "l = a @ I @ ws @ U @ b" and c: "ci I ''in''" "list_all is_space ws"
    "ci U ''use''" "\<not> word_before (adv None a)" "\<not> word_after b"
    unfolding in_use_phrase_def by blast
  from phrase_matches[OF c] have "bt (map tok_of in_use_pat) (adv None a) (I @ ws @ U @ b) \<noteq> None"
    by simp
  from search_from_complete[OF this] l show "in_use_line l"
    by (simp add: in_use_line_def re_search_def)
qed

lemma takeWhile_split:
  "\<not> P x \<Longrightarrow> \<exists>a'. a = takeWhile P (a @ x # t) @ a' \<and> dropWhile P (a @ x # t) = a' @ x # t"
  by (induction a) auto

lemma spaces_not_word_before: "list_all is_space sp \<Longrightarrow> \<not> word_before (adv None sp)"
proof (cases "sp = []")
  case True
  then show ?thesis by simp
next
  case False
  assume "list_all is_space sp"
  with False have "is_space (last sp)" by (simp add: list_all_iff)
  with False show ?thesis by (simp add: adv_last space_not_word)
qed

lemma spaces_not_word_after: "list_all is_space sp \<Longrightarrow> \<not> word_after sp"
  by (cases sp) (simp_all add: space_not_word)

lemma word_after_append: "b \<noteq> [] \<Longrightarrow> word_after (b @ c) = word_after b"
  by (cases b) auto

lemma phrase_lstrip: "in_use_phrase (dropWhile is_space l) = in_use_phrase l"
proof
  assume "in_use_phrase (dropWhile is_space l)"
  then obtain a I ws U b where d: "dropWhile is_space l = a @ I @ ws @ U @ b"
    and c: "ci I ''in''" "list_all is_space ws" "ci U ''use''" "\<not> word_after b"
    and w: "\<not> word_before (adv None a)"
    unfolding in_use_phrase_def by blast
  let ?tk = "takeWhile is_space l"
  have tk: "list_all is_space ?tk" by (simp add: list_all_iff) (meson set_takeWhileD)
  have "l = ?tk @ dropWhile is_space l" by simp
  with d have l: "l = (?tk @ a) @ I @ ws @ U @ b" by simp
  have "\<not> word_before (adv None (?tk @ a))"
  proof (cases "a = []")
    case True
    with spaces_not_word_before[OF tk] show ?thesis by simp
  next
    case False
    then have "adv None (?tk @ a) = adv None a"
      using adv_append[of None ?tk a] adv_nonempty[of a "adv None ?tk" None] by simp
    with w show ?thesis by simp
  qed
  with l c show "in_use_phrase l" unfolding in_use_phrase_def by blast
next
  assume "in_use_phrase l"
  then obtain a I ws U b where l: "l = a @ I @ ws @ U @ b"
    and c: "ci I ''in''" "list_all is_space ws" "ci U ''use''" "\<not> word_after b"
    and w: "\<not> word_before (adv None a)"
    unfolding in_use_phrase_def by blast
  from c(1) obtain x I' where I: "I = x # I'" "lower x = lower CHR ''i''"
    by (auto simp: ci_Cons)
  then have nx: "\<not> is_space x" by (simp add: nonspace_i)
  from takeWhile_split[of is_space x a "I' @ ws @ U @ b", OF nx] l I
  obtain a' where a: "a = takeWhile is_space l @ a'"
    and d: "dropWhile is_space l = a' @ I @ ws @ U @ b" by auto
  have "\<not> word_before (adv None a')"
  proof (cases "a' = []")
    case True
    then show ?thesis by simp
  next
    case False
    then have "adv None a = adv None a'"
      using adv_append[of None "takeWhile is_space l" a']
        adv_nonempty[of a' "adv None (takeWhile is_space l)" None] a by simp
    with w show ?thesis by simp
  qed
  with d c show "in_use_phrase (dropWhile is_space l)" unfolding in_use_phrase_def by blast
qed

lemma phrase_rstrip: "in_use_phrase (rev (dropWhile is_space (rev l))) = in_use_phrase l"
proof
  let ?sp = "rev (takeWhile is_space (rev l))"
  have sp: "list_all is_space ?sp" by (simp add: list_all_iff) (meson set_takeWhileD)
  have split: "l = rev (dropWhile is_space (rev l)) @ ?sp"
    by (metis rev_append rev_rev_ident takeWhile_dropWhile_id)
  assume "in_use_phrase (rev (dropWhile is_space (rev l)))"
  then obtain a I ws U b where d: "rev (dropWhile is_space (rev l)) = a @ I @ ws @ U @ b"
    and c: "ci I ''in''" "list_all is_space ws" "ci U ''use''" "\<not> word_before (adv None a)"
    and w: "\<not> word_after b"
    unfolding in_use_phrase_def by blast
  from split d have l: "l = a @ I @ ws @ U @ (b @ ?sp)" by simp
  have "\<not> word_after (b @ ?sp)"
  proof (cases "b = []")
    case True
    with spaces_not_word_after[OF sp] show ?thesis by simp
  next
    case False
    with w show ?thesis by (simp add: word_after_append)
  qed
  with l c show "in_use_phrase l" unfolding in_use_phrase_def by blast
next
  assume "in_use_phrase l"
  then obtain a I ws U b where l: "l = a @ I @ ws @ U @ b"
    and c: "ci I ''in''" "list_all is_space ws" "ci U ''use''" "\<not> word_before (adv None a)"
    and w: "\<not> word_after b"
    unfolding in_use_phrase_def by blast
  from c(3) obtain u v e where U: "U = [u, v, e]" "lower e = lower CHR ''e''"
    by (auto simp: ci_Cons ci_Nil)
  then have ne: "\<not> is_space e" by (simp add: nonspace_e)
  let ?t = "rev (a @ I @ ws @ [u, v])"
  from l U have r: "rev l = rev b @ e # ?t" by simp
  from takeWhile_split[of is_space e "rev b" ?t, OF ne] r
  obtain c' where b: "rev b = takeWhile is_space (rev l) @ c'"
    and d: "dropWhile is_space (rev l) = c' @ e # ?t" by auto
  from d U have d': "rev (dropWhile is_space (rev l)) = a @ I @ ws @ U @ rev c'" by simp
  from b have b': "b = rev c' @ rev (takeWhile is_space (rev l))"
    by (metis rev_append rev_rev_ident)
  have "\<not> word_after (rev c')"
  proof (cases "rev c' = []")
    case True
    then show ?thesis by simp
  next
    case False
    with w b' word_after_append[OF False, of "rev (takeWhile is_space (rev l))"] show ?thesis
      by simp
  qed
  with d' c show "in_use_phrase (rev (dropWhile is_space (rev l)))"
    unfolding in_use_phrase_def by blast
qed

lemma phrase_strip: "in_use_phrase (py_strip l) = in_use_phrase l"
  by (simp add: py_strip_def phrase_rstrip phrase_lstrip)

lemma used_guess_phrase:
  "used_guess s = int (length (filter in_use_phrase (splitlines s)))"
proof -
  have "filter in_use_line (map py_strip ls) = map py_strip (filter in_use_phrase ls)" for ls
    by (induction ls) (simp_all add: in_use_line_iff phrase_strip)
  then show ?thesis by (simp add: used_guess_def)
qed

lemma inuse_pats:
  "re_search pat1 ''inuse'' = None" "re_search pat2 ''inuse'' = None"
  "re_search pat3 ''inuse'' = None"
  by code_simp+

lemma inuse_guess: "used_guess ''inuse'' = 1"
  by code_simp

text \<open>
  C2, as the claim states it, fails: the one line of the text \<open>inuse\<close> does not
  contain the phrase \<open>in use\<close>, and none of the patterns matches, yet the used count
  is 1, since the pattern of the fallback allows no white space between the words.
\<close>

theorem parse_usage_inuse:
  "re_search pat1 ''inuse'' = None \<and> re_search pat2 ''inuse'' = None
   \<and> re_search pat3 ''inuse'' = None
   \<and> splitlines ''inuse'' = [''inuse'']
   \<and> \<not> contains ''in use'' (map lower ''inuse'')
   \<and> parse_usage ''inuse'' = Inr (None, Some 1)"
proof -
  have a: "splitlines ''inuse'' = [''inuse'']" by code_simp
  have b: "\<not> contains ''in use'' (map lower ''inuse'')" by code_simp
  have c: "parse_usage ''inuse'' = Inr (None, Some 1)"
    by (simp add: parse_usage_def COUNT_PATTERNS_def inuse_pats inuse_guess)
  from a b c inuse_pats show ?thesis by simp
qed


text \<open>
  C2, amended. On a text that none of the three count patterns matches, let \<open>N\<close> be
  the number of its lines that hold, in either case and between word boundaries, the
  word \<open>in\<close>, any run of white space (none at all included) and the word \<open>use\<close>.
  If \<open>N\<close> is positive \<open>parse_usage\<close> returns an unknown total and \<open>N\<close> as the
  used count, and else two unknowns.
\<close>

theorem parse_usage_fallback:
  assumes "\<forall>p \<in> set COUNT_PATTERNS. re_search p s = None"
  shows "parse_usage s =
           (if 0 < length (filter in_use_phrase (splitlines s))
            then Inr (None, Some (int (length (filter in_use_phrase (splitlines s)))))
            else Inr (None, None))"
proof -
  from assms have "try_patterns COUNT_PATTERNS s = None"
    by (simp add: COUNT_PATTERNS_def)
  then show ?thesis by (simp add: parse_usage_def used_guess_phrase)
qed

lemma two_lines_pats:
  "re_search pat1 (''a in use'' @ [CHR 0x0A] @ ''IN USE'') = None"
  "re_search pat2 (''a in use'' @ [CHR 0x0A] @ ''IN USE'') = None"
  "re_search pat3 (''a in use'' @ [CHR 0x0A] @ ''IN USE'') = None"
  by code_simp+

lemma two_lines_count:
  "length (filter in_use_line (splitlines (''a in use'' @ [CHR 0x0A] @ ''IN USE''))) = 2"
  by code_simp

theorem parse_usage_fallback_witness:
  "re_search pat1 (''a in use'' @ [CHR 0x0A] @ ''IN USE'') = None
   \<and> re_search pat2 (''a in use'' @ [CHR 0x0A] @ ''IN USE'') = None
   \<and> re_search pat3 (''a in use'' @ [CHR 0x0A] @ ''IN USE'') = None
   \<and> length (filter in_use_phrase (splitlines (''a in use'' @ [CHR 0x0A] @ ''IN USE''))) = 2
   \<and> parse_usage (''a in use'' @ [CHR 0x0A] @ ''IN USE'') = Inr (None, Some 2)"
proof -
  let ?t = "''a in use'' @ [CHR 0x0A] @ ''IN USE''"
  have h: "\<forall>p \<in> set COUNT_PATTERNS. re_search p ?t = None"
    using two_lines_pats by (simp add: COUNT_PATTERNS_def)
  have "in_use_phrase = in_use_line" by (rule ext) (simp add: in_use_line_iff)
  with two_lines_count have n: "length (filter in_use_phrase (splitlines ?t)) = 2" by simp
  from n have "filter in_use_phrase (splitlines ?t) \<noteq> []" by auto
  with parse_usage_fallback[OF h] n two_lines_pats show ?thesis by simp
qed

section \<open>The three count patterns\<close>

lemma no_start_prev: "WordB \<notin> set p \<Longrightarrow> no_start p prev a rest = no_start p prev' a rest"
proof (induction a arbitrary: prev prev')
  case Nil
  then show ?case by simp
next
  case (Cons x a)
  from Cons.prems have "bt p prev (x # a @ rest) = bt p prev' (x # a @ rest)" by (rule bt_prev)
  with Cons.IH[OF Cons.prems, of "Some x" "Some x"] show ?case by simp
qed

lemma lower_lower: "lower (lower x) = lower x"
  by (simp add: lower_def code_def)

lemma accepts_lower: "accepts k (lower x) = accepts k x"
  by (cases k) (simp_all add: lower_lower is_space_lower is_digit_lower)

lemma blocked_append: "blocked k (g @ s) = (if g = [] then blocked k s else blocked k g)"
  by (cases g) auto

lemma ci_nonempty: "ci g (c # w) \<Longrightarrow> g \<noteq> []"
  by (auto simp: ci_def)

lemma blocked_lit: "ci g (c # w) \<Longrightarrow> blocked k g = (\<not> accepts k c)"
proof -
  assume "ci g (c # w)"
  then obtain x g' where g: "g = x # g'" "lower x = lower c" by (auto simp: ci_Cons)
  with accepts_lower[of k x] accepts_lower[of k c] show ?thesis by simp
qed

lemma blocked_number: "number n \<Longrightarrow> blocked Space n"
  by (cases n) (auto simp: number_def is_digit_def is_space_def)

lemma blocked_spaces_digit: "spaces1 a \<Longrightarrow> blocked Digit a"
  by (cases a) (auto simp: spaces1_def is_digit_def is_space_def)

lemma ci_refl: "ci w w"
  by (simp add: ci_def)

lemma head_facts:
  "\<not> is_space CHR ''T''" "\<not> is_space CHR ''o''" "\<not> is_space CHR ''l''"
  "\<not> is_space CHR ''i''" "\<not> is_space CHR ''I''" "\<not> is_space CHR ''u''"
  "\<not> is_space CHR ''U''" "\<not> is_space CHR '':''" "\<not> is_space CHR ''=''"
  "\<not> is_digit CHR ''I''" "\<not> is_digit CHR ''U''"
  "lower CHR ''T'' \<noteq> lower CHR '';''"
  by code_simp+

lemma all_dot: "list_all (accepts Dot) m"
  by (simp add: list_all_iff)

lemma pat3_toks:
  "map tok_of pat3 =
     [Lit ''Issued'', Rep Star Space, Lit ''='', Rep Star Space, Rep Plus Digit, Rep Lazy Dot,
      Lit ''Used'', Rep Star Space, Lit ''='', Rep Star Space, Rep Plus Digit]"
  by (simp add: pat3_def)

lemma pat3_path:
  assumes "ci Is ''Issued''" "spaces a1" "spaces a2" "number N" "blocked Digit mid"
    and "ci Us ''Used''" "spaces a3" "spaces a4" "number M" "blocked Digit post"
    and "no_start (map tok_of (drop 6 pat3)) None mid (Us @ a3 @ ''='' @ a4 @ M @ post)"
  shows "first_path (map tok_of pat3) [Is, a1, ''='', a2, N, mid, Us, a3, ''='', a4, M] prev post"
proof -
  have t: "map tok_of (drop 6 pat3) =
      [Lit ''Used'', Rep Star Space, Lit ''='', Rep Star Space, Rep Plus Digit]"
    by (simp add: pat3_def)
  have ns: "no_start [Lit ''Used'', Rep Star Space, Lit ''='', Rep Star Space, Rep Plus Digit] q mid
              (Us @ a3 @ ''='' @ a4 @ M @ post)" for q
    using assms(11) unfolding t
    by (subst no_start_prev[where prev = q and prev' = None]) simp_all
  from assms(1-10) ns show ?thesis
    by (simp add: pat3_toks accepts_Space accepts_Digit blocked_append ci_nonempty blocked_lit
        blocked_number head_facts ci_refl spaces_def number_def all_dot)
qed

lemma space_not_semi: "is_space x \<Longrightarrow> lower x \<noteq> lower CHR '';''"
proof
  assume a: "is_space x" and "lower x = lower CHR '';''"
  then have "is_space (lower CHR '';'')" using is_space_lower[of x] by simp
  moreover have "\<not> is_space (lower CHR '';'')" by code_simp
  ultimately show False by simp
qed

lemma blocked_spaces_semi: "a \<noteq> [] \<Longrightarrow> list_all is_space a \<Longrightarrow> blocked (Ch CHR '';'') a"
  by (cases a) (auto simp: space_not_semi)

lemma blocked_spaces_digit': "a \<noteq> [] \<Longrightarrow> list_all is_space a \<Longrightarrow> blocked Digit a"
  by (cases a) (auto simp: is_digit_def is_space_def)

lemma pat2_toks:
  "map tok_of pat2 =
     [Lit ''Total'', Rep Plus Space, Lit ''licenses'', Rep Star Space, Lit '':'', Rep Star Space,
      Rep Plus Digit, Rep Lazy Dot,
      Lit ''In'', Rep Plus Space, Lit ''use'', Rep Star Space, Lit '':'', Rep Star Space,
      Rep Plus Digit]"
  by (simp add: pat2_def)

lemma pat2_path:
  assumes "ci T ''Total''" "spaces1 a1" "ci L ''licenses''" "spaces a2" "spaces a3" "number N"
    and "blocked Digit mid"
    and "ci In ''In''" "spaces1 a4" "ci Us ''use''" "spaces a5" "spaces a6" "number M"
    and "blocked Digit post"
    and "no_start (map tok_of (drop 8 pat2)) None mid
           (In @ a4 @ Us @ a5 @ '':'' @ a6 @ M @ post)"
  shows "first_path (map tok_of pat2)
           [T, a1, L, a2, '':'', a3, N, mid, In, a4, Us, a5, '':'', a6, M] prev post"
proof -
  have t: "map tok_of (drop 8 pat2) =
      [Lit ''In'', Rep Plus Space, Lit ''use'', Rep Star Space, Lit '':'', Rep Star Space,
       Rep Plus Digit]"
    by (simp add: pat2_def)
  have ns: "no_start [Lit ''In'', Rep Plus Space, Lit ''use'', Rep Star Space, Lit '':'',
              Rep Star Space, Rep Plus Digit] q mid
              (In @ a4 @ Us @ a5 @ '':'' @ a6 @ M @ post)" for q
    using assms(15) unfolding t
    by (subst no_start_prev[where prev = q and prev' = None]) simp_all
  from assms(1-14) ns show ?thesis
    by (simp add: pat2_toks accepts_Space accepts_Digit blocked_append ci_nonempty blocked_lit
        blocked_number head_facts ci_refl spaces_def spaces1_def number_def all_dot)
qed

lemma pat1_toks:
  "map tok_of pat1 =
     [Lit ''Total'', Rep Plus Space, Lit ''of'', Rep Plus Space, Rep Plus Digit, Rep Plus Space,
      Lit ''licenses'', Rep Plus Space, Lit ''issued'', Rep Opt (Ch CHR '';''), Rep Star Space,
      Lit ''Total'', Rep Plus Space, Lit ''of'', Rep Plus Space, Rep Plus Digit, Rep Plus Space,
      Lit ''licenses'', Rep Plus Space, Lit ''in'', Rep Plus Space, Lit ''use'']"
  by (simp add: pat1_def)

lemma pat1_path:
  assumes "ci T1 ''Total''" "spaces1 a1" "ci O1 ''of''" "spaces1 a2" "number N" "spaces1 a3"
    and "ci L1 ''licenses''" "spaces1 a4" "ci Is ''issued''" "semi = [] \<or> semi = '';''"
    and "spaces a5"
    and "ci T2 ''Total''" "spaces1 a6" "ci O2 ''of''" "spaces1 a7" "number M" "spaces1 a8"
    and "ci L2 ''licenses''" "spaces1 a9" "ci In ''in''" "spaces1 a10" "ci Us ''use''"
  shows "first_path (map tok_of pat1)
           [T1, a1, O1, a2, N, a3, L1, a4, Is, semi, a5, T2, a6, O2, a7, M, a8, L2, a9, In, a10, Us]
           prev post"
proof -
  from assms have ne: "T1 \<noteq> []" "O1 \<noteq> []" "L1 \<noteq> []" "Is \<noteq> []" "T2 \<noteq> []" "O2 \<noteq> []"
    "L2 \<noteq> []" "In \<noteq> []" "Us \<noteq> []"
    by (auto simp: ci_Cons)
  have bl: "blocked Space O1" "blocked Space L1" "blocked Space Is" "blocked Space T2"
    "blocked Space O2" "blocked Space L2" "blocked Space In" "blocked Space Us"
    "blocked (Ch CHR '';'') T2"
    using blocked_lit[OF assms(3)] blocked_lit[OF assms(7)] blocked_lit[OF assms(9)]
      blocked_lit[OF assms(12)] blocked_lit[OF assms(14)] blocked_lit[OF assms(18)]
      blocked_lit[OF assms(20)] blocked_lit[OF assms(22)]
    by (simp_all add: head_facts)
  have tail: "first_path
      [Rep Star Space, Lit ''Total'', Rep Plus Space, Lit ''of'', Rep Plus Space, Rep Plus Digit,
       Rep Plus Space, Lit ''licenses'', Rep Plus Space, Lit ''in'', Rep Plus Space, Lit ''use'']
      [a5, T2, a6, O2, a7, M, a8, L2, a9, In, a10, Us] q post" for q
    using assms(11-22) ne bl
    by (simp add: accepts_Space accepts_Digit blocked_append
        blocked_number blocked_spaces_digit' spaces_def spaces1_def number_def)
  have semi: "list_all (accepts (Ch CHR '';'')) semi \<and> length semi \<le> 1
      \<and> (semi \<noteq> [] \<or> blocked (Ch CHR '';'') (a5 @ T2 @ r))" for r
    using assms(10,11) ne bl
    by (auto simp: blocked_append blocked_spaces_semi spaces_def)
  from assms(1-9) ne bl tail semi[of "a6 @ O2 @ a7 @ M @ a8 @ L2 @ a9 @ In @ a10 @ Us @ post"]
  show ?thesis
    by (simp add: pat1_toks accepts_Space accepts_Digit blocked_append
        blocked_number blocked_spaces_digit' spaces_def spaces1_def number_def)
qed

lemma re_search_first_path:
  assumes "first_path (map tok_of p) segs (adv None pre) post"
    and "no_start (map tok_of p) None pre (concat segs @ post)"
  shows "re_search p (pre @ concat segs @ post) = Some (groups p segs)"
proof -
  from bt_first_path[OF assms(1)]
  have "search_from (map tok_of p) (adv None pre) (concat segs @ post) = Some segs"
    by (rule search_from_hit)
  with search_from_skip[OF assms(2)] show ?thesis by (simp add: re_search_def)
qed

lemma py_int_number: "number n \<Longrightarrow> py_int n = Inr (digits_value n)"
  by (simp add: py_int_def number_def)

lemma try_match:
  "re_search p s = Some [n, m] \<Longrightarrow> number n \<Longrightarrow> number m
   \<Longrightarrow> try_patterns (p # ps) s = Some (Inr (digits_value n, digits_value m))"
  by (simp add: group_def py_int_number)

lemma groups_pat1:
  "groups pat1 [T1, a1, O1, a2, N, a3, L1, a4, Is, semi, a5, T2, a6, O2, a7, M, a8, L2, a9, In, a10, Us]
     = [N, M]"
  by (simp add: groups_def pat1_def)

lemma groups_pat2:
  "groups pat2 [T, a1, L, a2, c1, a3, N, mid, In, a4, Us, a5, c2, a6, M] = [N, M]"
  by (simp add: groups_def pat2_def)

lemma groups_pat3: "groups pat3 [Is, a1, e1, a2, N, mid, Us, a3, e2, a4, M] = [N, M]"
  by (simp add: groups_def pat3_def)

lemma try_skip: "re_search p s = None \<Longrightarrow> try_patterns (p # ps) s = try_patterns ps s"
  by simp

lemma parse_first:
  "re_search pat1 s = Some [n, m] \<Longrightarrow> number n \<Longrightarrow> number m
   \<Longrightarrow> parse_usage s = Inr (Some (digits_value n), Some (digits_value m))"
  using try_match[of pat1 s n m "[pat2, pat3]"]
  by (simp add: parse_usage_def COUNT_PATTERNS_def del: try_patterns.simps)

lemma parse_second:
  "re_search pat1 s = None \<Longrightarrow> re_search pat2 s = Some [n, m] \<Longrightarrow> number n \<Longrightarrow> number m
   \<Longrightarrow> parse_usage s = Inr (Some (digits_value n), Some (digits_value m))"
  using try_match[of pat2 s n m "[pat3]"] try_skip[of pat1 s "[pat2, pat3]"]
  by (simp add: parse_usage_def COUNT_PATTERNS_def del: try_patterns.simps)

lemma parse_third:
  "re_search pat1 s = None \<Longrightarrow> re_search pat2 s = None \<Longrightarrow> re_search pat3 s = Some [n, m]
   \<Longrightarrow> number n \<Longrightarrow> number m
   \<Longrightarrow> parse_usage s = Inr (Some (digits_value n), Some (digits_value m))"
  using try_match[of pat3 s n m "[]"] try_skip[of pat1 s "[pat2, pat3]"]
    try_skip[of pat2 s "[pat3]"]
  by (simp add: parse_usage_def COUNT_PATTERNS_def del: try_patterns.simps)

lemma phrasing1_parse:
  assumes "ci T1 ''Total''" "spaces1 a1" "ci O1 ''of''" "spaces1 a2" "number N" "spaces1 a3"
    and "ci L1 ''licenses''" "spaces1 a4" "ci Is ''issued''" "semi = [] \<or> semi = '';''"
    and "spaces a5"
    and "ci T2 ''Total''" "spaces1 a6" "ci O2 ''of''" "spaces1 a7" "number M" "spaces1 a8"
    and "ci L2 ''licenses''" "spaces1 a9" "ci In ''in''" "spaces1 a10" "ci Us ''use''"
    and "no_start (map tok_of pat1) None pre
           (T1 @ a1 @ O1 @ a2 @ N @ a3 @ L1 @ a4 @ Is @ semi @ a5 @ T2 @ a6 @ O2 @ a7 @ M @ a8
            @ L2 @ a9 @ In @ a10 @ Us @ post)"
  shows "parse_usage
           (pre @ T1 @ a1 @ O1 @ a2 @ N @ a3 @ L1 @ a4 @ Is @ semi @ a5 @ T2 @ a6 @ O2 @ a7 @ M
            @ a8 @ L2 @ a9 @ In @ a10 @ Us @ post)
         = Inr (Some (digits_value N), Some (digits_value M))"
proof -
  let ?segs = "[T1, a1, O1, a2, N, a3, L1, a4, Is, semi, a5, T2, a6, O2, a7, M, a8, L2, a9, In, a10, Us]"
  have p: "first_path (map tok_of pat1) ?segs (adv None pre) post"
    using assms(1-22) by (rule pat1_path)
  have n: "no_start (map tok_of pat1) None pre (concat ?segs @ post)"
    using assms(23) by simp
  from re_search_first_path[OF p n]
  have "re_search pat1 (pre @ concat ?segs @ post) = Some [N, M]" by (simp only: groups_pat1)
  from parse_first[OF this assms(5,16)] show ?thesis by simp
qed

lemma phrasing2_parse:
  assumes "ci T ''Total''" "spaces1 a1" "ci L ''licenses''" "spaces a2" "spaces a3" "number N"
    and "blocked Digit mid"
    and "ci In ''In''" "spaces1 a4" "ci Us ''use''" "spaces a5" "spaces a6" "number M"
    and "blocked Digit post"
    and "no_start (map tok_of (drop 8 pat2)) None mid
           (In @ a4 @ Us @ a5 @ '':'' @ a6 @ M @ post)"
    and "no_start (map tok_of pat2) None pre
           (T @ a1 @ L @ a2 @ '':'' @ a3 @ N @ mid @ In @ a4 @ Us @ a5 @ '':'' @ a6 @ M @ post)"
    and "re_search pat1
           (pre @ T @ a1 @ L @ a2 @ '':'' @ a3 @ N @ mid @ In @ a4 @ Us @ a5 @ '':'' @ a6 @ M @ post)
         = None"
  shows "parse_usage
           (pre @ T @ a1 @ L @ a2 @ '':'' @ a3 @ N @ mid @ In @ a4 @ Us @ a5 @ '':'' @ a6 @ M @ post)
         = Inr (Some (digits_value N), Some (digits_value M))"
proof -
  let ?segs = "[T, a1, L, a2, '':'', a3, N, mid, In, a4, Us, a5, '':'', a6, M]"
  have p: "first_path (map tok_of pat2) ?segs (adv None pre) post"
    using assms(1-15) by (rule pat2_path)
  have n: "no_start (map tok_of pat2) None pre (concat ?segs @ post)"
    using assms(16) by simp
  from re_search_first_path[OF p n]
  have r: "re_search pat2 (pre @ concat ?segs @ post) = Some [N, M]" by (simp only: groups_pat2)
  have q: "re_search pat1 (pre @ concat ?segs @ post) = None" using assms(17) by simp
  from parse_second[OF q r assms(6,13)] show ?thesis by simp
qed

lemma phrasing3_parse:
  assumes "ci Is ''Issued''" "spaces a1" "spaces a2" "number N" "blocked Digit mid"
    and "ci Us ''Used''" "spaces a3" "spaces a4" "number M" "blocked Digit post"
    and "no_start (map tok_of (drop 6 pat3)) None mid (Us @ a3 @ ''='' @ a4 @ M @ post)"
    and "no_start (map tok_of pat3) None pre
           (Is @ a1 @ ''='' @ a2 @ N @ mid @ Us @ a3 @ ''='' @ a4 @ M @ post)"
    and "re_search pat1 (pre @ Is @ a1 @ ''='' @ a2 @ N @ mid @ Us @ a3 @ ''='' @ a4 @ M @ post) = None"
    and "re_search pat2 (pre @ Is @ a1 @ ''='' @ a2 @ N @ mid @ Us @ a3 @ ''='' @ a4 @ M @ post) = None"
  shows "parse_usage (pre @ Is @ a1 @ ''='' @ a2 @ N @ mid @ Us @ a3 @ ''='' @ a4 @ M @ post)
         = Inr (Some (digits_value N), Some (digits_value M))"
proof -
  let ?segs = "[Is, a1, ''='', a2, N, mid, Us, a3, ''='', a4, M]"
  have p: "first_path (map tok_of pat3) ?segs (adv None pre) post"
    using assms(1-11) by (rule pat3_path)
  have n: "no_start (map tok_of pat3) None pre (concat ?segs @ post)"
    using assms(12) by simp
  from re_search_first_path[OF p n]
  have r: "re_search pat3 (pre @ concat ?segs @ post) = Some [N, M]" by (simp only: groups_pat3)
  have q1: "re_search pat1 (pre @ concat ?segs @ post) = None" using assms(13) by simp
  have q2: "re_search pat2 (pre @ concat ?segs @ post) = None" using assms(14) by simp
  from parse_third[OF q1 q2 r assms(4,9)] show ?thesis by simp
qed

lemma intervening_pats:
  "re_search pat1 ''Total of 25 licenses issued, Total of 5 licenses in use'' = None"
  "re_search pat2 ''Total of 25 licenses issued, Total of 5 licenses in use'' = None"
  "re_search pat3 ''Total of 25 licenses issued, Total of 5 licenses in use'' = None"
  by code_simp+

lemma intervening_guess:
  "used_guess ''Total of 25 licenses issued, Total of 5 licenses in use'' = 1"
  by code_simp

text \<open>
  C1, as the claim states it, fails for the first phrasing: with a comma and a blank
  between \<open>issued\<close> and the second \<open>Total\<close>, none of the patterns matches, and the
  result is the guess of the fallback, not the two numbers 25 and 5.
\<close>

theorem parse_usage_intervening:
  "parse_usage (''Total of 25 licenses issued'' @ '', '' @ ''Total of 5 licenses in use'')
     = Inr (None, Some 1)"
  by (simp add: parse_usage_def COUNT_PATTERNS_def intervening_pats intervening_guess)

text \<open>
  C1, amended. Take a text \<open>pre @ body @ post\<close> in which no match of the deciding
  pattern begins inside \<open>pre\<close>. \<open>parse_usage\<close> returns the two numbers \<open>N\<close> and
  \<open>M\<close> of \<open>body\<close> when \<open>body\<close> is, in either case of its letters,

  \<^item> \<open>Total of N licenses issued\<close>, an optional semicolon, optional white space and
    \<open>Total of M licenses in use\<close>, the words separated by white space (newlines
    included) and by nothing else;
  \<^item> \<open>Total licenses: N\<close>, any text, \<open>In use: M\<close>, if the first pattern matches
    nowhere in the text;
  \<^item> \<open>Issued=N\<close>, any text, \<open>Used=M\<close>, if the first two patterns match nowhere in the
    text;

  where in the last two \<open>N\<close> and \<open>M\<close> are whole runs of digits and the text between
  holds no earlier place where the second half of the pattern matches.
\<close>

theorem parse_usage_phrasings:
  "(ci T1 ''Total'' \<and> spaces1 a1 \<and> ci O1 ''of'' \<and> spaces1 a2 \<and> number N \<and> spaces1 a3
      \<and> ci L1 ''licenses'' \<and> spaces1 a4 \<and> ci Is ''issued'' \<and> (semi = [] \<or> semi = '';'')
      \<and> spaces a5
      \<and> ci T2 ''Total'' \<and> spaces1 a6 \<and> ci O2 ''of'' \<and> spaces1 a7 \<and> number M \<and> spaces1 a8
      \<and> ci L2 ''licenses'' \<and> spaces1 a9 \<and> ci In ''in'' \<and> spaces1 a10 \<and> ci Us ''use''
      \<and> no_start (map tok_of pat1) None pre
           (T1 @ a1 @ O1 @ a2 @ N @ a3 @ L1 @ a4 @ Is @ semi @ a5 @ T2 @ a6 @ O2 @ a7 @ M @ a8
            @ L2 @ a9 @ In @ a10 @ Us @ post)
    \<longrightarrow> parse_usage
           (pre @ T1 @ a1 @ O1 @ a2 @ N @ a3 @ L1 @ a4 @ Is @ semi @ a5 @ T2 @ a6 @ O2 @ a7 @ M
            @ a8 @ L2 @ a9 @ In @ a10 @ Us @ post)
         = Inr (Some (digits_value N), Some (digits_value M)))
   \<and> (ci Tb ''Total'' \<and> spaces1 b1 \<and> ci Lb ''licenses'' \<and> spaces b2 \<and> spaces b3 \<and> number Nb
      \<and> blocked Digit midb
      \<and> ci Inb ''In'' \<and> spaces1 b4 \<and> ci Ub ''use'' \<and> spaces b5 \<and> spaces b6 \<and> number Mb
      \<and> blocked Digit postb
      \<and> no_start (map tok_of (drop 8 pat2)) None midb
           (Inb @ b4 @ Ub @ b5 @ '':'' @ b6 @ Mb @ postb)
      \<and> no_start (map tok_of pat2) None preb
           (Tb @ b1 @ Lb @ b2 @ '':'' @ b3 @ Nb @ midb @ Inb @ b4 @ Ub @ b5 @ '':'' @ b6 @ Mb @ postb)
      \<and> re_search pat1
           (preb @ Tb @ b1 @ Lb @ b2 @ '':'' @ b3 @ Nb @ midb @ Inb @ b4 @ Ub @ b5 @ '':'' @ b6 @ Mb
            @ postb) = None
    \<longrightarrow> parse_usage
           (preb @ Tb @ b1 @ Lb @ b2 @ '':'' @ b3 @ Nb @ midb @ Inb @ b4 @ Ub @ b5 @ '':'' @ b6 @ Mb
            @ postb)
         = Inr (Some (digits_value Nb), Some (digits_value Mb)))
   \<and> (ci Ic ''Issued'' \<and> spaces c1 \<and> spaces c2 \<and> number Nc \<and> blocked Digit midc
      \<and> ci Uc ''Used'' \<and> spaces c3 \<and> spaces c4 \<and> number Mc \<and> blocked Digit postc
      \<and> no_start (map tok_of (drop 6 pat3)) None midc (Uc @ c3 @ ''='' @ c4 @ Mc @ postc)
      \<and> no_start (map tok_of pat3) None prec
           (Ic @ c1 @ ''='' @ c2 @ Nc @ midc @ Uc @ c3 @ ''='' @ c4 @ Mc @ postc)
      \<and> re_search pat1 (prec @ Ic @ c1 @ ''='' @ c2 @ Nc @ midc @ Uc @ c3 @ ''='' @ c4 @ Mc @ postc)
          = None
      \<and> re_search pat2 (prec @ Ic @ c1 @ ''='' @ c2 @ Nc @ midc @ Uc @ c3 @ ''='' @ c4 @ Mc @ postc)
          = None
    \<longrightarrow> parse_usage (prec @ Ic @ c1 @ ''='' @ c2 @ Nc @ midc @ Uc @ c3 @ ''='' @ c4 @ Mc @ postc)
         = Inr (Some (digits_value Nc), Some (digits_value Mc)))"
proof (intro conjI impI)
  assume "ci T1 ''Total'' \<and> spaces1 a1 \<and> ci O1 ''of'' \<and> spaces1 a2 \<and> number N \<and> spaces1 a3
      \<and> ci L1 ''licenses'' \<and> spaces1 a4 \<and> ci Is ''issued'' \<and> (semi = [] \<or> semi = '';'')
      \<and> spaces a5
      \<and> ci T2 ''Total'' \<and> spaces1 a6 \<and> ci O2 ''of'' \<and> spaces1 a7 \<and> number M \<and> spaces1 a8
      \<and> ci L2 ''licenses'' \<and> spaces1 a9 \<and> ci In ''in'' \<and> spaces1 a10 \<and> ci Us ''use''
      \<and> no_start (map tok_of pat1) None pre
           (T1 @ a1 @ O1 @ a2 @ N @ a3 @ L1 @ a4 @ Is @ semi @ a5 @ T2 @ a6 @ O2 @ a7 @ M @ a8
            @ L2 @ a9 @ In @ a10 @ Us @ post)"
  then show "parse_usage
           (pre @ T1 @ a1 @ O1 @ a2 @ N @ a3 @ L1 @ a4 @ Is @ semi @ a5 @ T2 @ a6 @ O2 @ a7 @ M
            @ a8 @ L2 @ a9 @ In @ a10 @ Us @ post)
         = Inr (Some (digits_value N), Some (digits_value M))"
    by (elim conjE) (rule phrasing1_parse; assumption)
next
  assume "ci Tb ''Total'' \<and> spaces1 b1 \<and> ci Lb ''licenses'' \<and> spaces b2 \<and> spaces b3 \<and> number Nb
      \<and> blocked Digit midb
      \<and> ci Inb ''In'' \<and> spaces1 b4 \<and> ci Ub ''use'' \<and> spaces b5 \<and> spaces b6 \<and> number Mb
      \<and> blocked Digit postb
      \<and> no_start (map tok_of (drop 8 pat2)) None midb
           (Inb @ b4 @ Ub @ b5 @ '':'' @ b6 @ Mb @ postb)
      \<and> no_start (map tok_of pat2) None preb
           (Tb @ b1 @ Lb @ b2 @ '':'' @ b3 @ Nb @ midb @ Inb @ b4 @ Ub @ b5 @ '':'' @ b6 @ Mb @ postb)
      \<and> re_search pat1
           (preb @ Tb @ b1 @ Lb @ b2 @ '':'' @ b3 @ Nb @ midb @ Inb @ b4 @ Ub @ b5 @ '':'' @ b6 @ Mb
            @ postb) = None"
  then show "parse_usage
           (preb @ Tb @ b1 @ Lb @ b2 @ '':'' @ b3 @ Nb @ midb @ Inb @ b4 @ Ub @ b5 @ '':'' @ b6 @ Mb
            @ postb)
         = Inr (Some (digits_value Nb), Some (digits_value Mb))"
    by (elim conjE) (rule phrasing2_parse; assumption)
next
  assume "ci Ic ''Issued'' \<and> spaces c1 \<and> spaces c2 \<and> number Nc \<and> blocked Digit midc
      \<and> ci Uc ''Used'' \<and> spaces c3 \<and> spaces c4 \<and> number Mc \<and> blocked Digit postc
      \<and> no_start (map tok_of (drop 6 pat3)) None midc (Uc @ c3 @ ''='' @ c4 @ Mc @ postc)
      \<and> no_start (map tok_of pat3) None prec
           (Ic @ c1 @ ''='' @ c2 @ Nc @ midc @ Uc @ c3 @ ''='' @ c4 @ Mc @ postc)
      \<and> re_search pat1 (prec @ Ic @ c1 @ ''='' @ c2 @ Nc @ midc @ Uc @ c3 @ ''='' @ c4 @ Mc @ postc)
          = None
      \<and> re_search pat2 (prec @ Ic @ c1 @ ''='' @ c2 @ Nc @ midc @ Uc @ c3 @ ''='' @ c4 @ Mc @ postc)
          = None"
  then show "parse_usage (prec @ Ic @ c1 @ ''='' @ c2 @ Nc @ midc @ Uc @ c3 @ ''='' @ c4 @ Mc @ postc)
         = Inr (Some (digits_value Nc), Some (digits_value Mc))"
    by (elim conjE) (rule phrasing3_parse; assumption)
qed

lemma digits_25: "digits_value ''25'' = 25" and digits_10: "digits_value ''10'' = 10"
  by (simp_all add: digits_value_def digit_val_def code_def)

theorem parse_usage_phrasings_witness:
  "parse_usage (''lmstat: TOTAL of 25 licenses issued;'' @ [CHR 0x0A] @ ''Total of 5 licenses in use.'')
     = Inr (Some 25, Some 5)
   \<and> parse_usage (''Total licenses: 25'' @ [CHR 0x0A] @ ''In use: 5'') = Inr (Some 25, Some 5)
   \<and> parse_usage ''Issued=10 ... Used=10'' = Inr (Some 10, Some 10)"
proof -
  have a: "parse_usage
      (''lmstat: '' @ ''TOTAL'' @ '' '' @ ''of'' @ '' '' @ ''25'' @ '' '' @ ''licenses'' @ '' ''
       @ ''issued'' @ '';'' @ [CHR 0x0A] @ ''Total'' @ '' '' @ ''of'' @ '' '' @ ''5'' @ '' ''
       @ ''licenses'' @ '' '' @ ''in'' @ '' '' @ ''use'' @ ''.'')
      = Inr (Some (digits_value ''25''), Some (digits_value ''5''))"
    by (rule parse_usage_phrasings[THEN conjunct1, THEN mp]) code_simp
  have b: "parse_usage
      ([] @ ''Total'' @ '' '' @ ''licenses'' @ [] @ '':'' @ '' '' @ ''25'' @ [CHR 0x0A] @ ''In''
       @ '' '' @ ''use'' @ [] @ '':'' @ '' '' @ ''5'' @ [])
      = Inr (Some (digits_value ''25''), Some (digits_value ''5''))"
    by (rule parse_usage_phrasings[THEN conjunct2, THEN conjunct1, THEN mp]) code_simp
  have c: "parse_usage
      ([] @ ''Issued'' @ [] @ ''='' @ [] @ ''10'' @ '' ... '' @ ''Used'' @ [] @ ''='' @ [] @ ''10'' @ [])
      = Inr (Some (digits_value ''10''), Some (digits_value ''10''))"
    by (rule parse_usage_phrasings[THEN conjunct2, THEN conjunct2, THEN mp]) code_simp
  from a b c show ?thesis by (simp add: digits_25 digits_10 digits_value_5)
qed

end
